theory Spec2Isabelle
  imports Main
begin

section \<open>The reachability engine (reachability.hpp)\<close>

text \<open>
  The engine is a class template over the type of states \<open>State_t\<close>, the type of costs
  \<open>Cost_t\<close> and the successor generator. States are compared with \<open>==\<close>
  (\<open>std::find\<close>) and are default-constructible (\<open>State_t state;\<close> in \<open>popstate\<close>,
  \<open>trace[curr_state]\<close> on \<open>std::map\<close>): the value-initialised state \<open>State_t{}\<close> is the
  constant \<open>default\<close> of the type class of that name. Costs are compared with \<open><\<close>
  (\<open>std::min_element\<close>), here a linear order. The keys of the \<open>std::map\<close> are told apart
  by \<open><\<close> on states; the model takes two keys to be the same exactly when the states are
  equal, as they are for the orders of the three clients. The \<open>Timer\<close> in \<open>check\<close> only
  prints and is left out.
\<close>

datatype search_order_t = depth_first | breadth_first | cost_guided

text \<open>
  \<open>successors\<close> turns a generator of transitions into a generator of successor states:
  every transition is applied to a copy of the current state, in the generator's order.
\<close>

definition successors :: "('s \<Rightarrow> ('s \<Rightarrow> 's) list) \<Rightarrow> 's \<Rightarrow> 's list" where
  "successors transitions current_state =
     map (\<lambda>transition. transition current_state) (transitions current_state)"

definition default_cost_function :: "'s \<Rightarrow> int \<Rightarrow> int" where
  "default_cost_function state prev_cost = 0"

definition default_invariant :: "'s \<Rightarrow> bool" where
  "default_invariant state = True"

text \<open>The data members of \<open>state_space_t\<close>, in declaration order.\<close>

record ('s, 'c) state_space_t =
  initial_state :: 's
  initial_cost :: 'c
  successors_function :: "'s \<Rightarrow> 's list"
  invariant :: "'s \<Rightarrow> bool"
  cost_function :: "'s \<Rightarrow> 'c \<Rightarrow> 'c"
  previous_cost :: 'c

text \<open>
  The two constructors. The first leaves \<open>cost_function\<close> at its default member
  initialiser and sets \<open>initial_cost\<close> to 0 (the deduction guides fix \<open>Cost_t = int\<close>
  for it); in both, \<open>previous_cost\<close> is initialised from \<open>initial_cost\<close> by its default
  member initialiser. \<open>state_space\<close> is the first constructor with its default argument.
\<close>

definition state_space_inv ::
  "'s \<Rightarrow> ('s \<Rightarrow> 's list) \<Rightarrow> ('s \<Rightarrow> bool) \<Rightarrow> ('s, int) state_space_t" where
  "state_space_inv state succ invariant_fn =
     \<lparr>initial_state = state, initial_cost = 0, successors_function = succ,
      invariant = invariant_fn, cost_function = default_cost_function, previous_cost = 0\<rparr>"

definition state_space :: "'s \<Rightarrow> ('s \<Rightarrow> 's list) \<Rightarrow> ('s, int) state_space_t" where
  "state_space state succ = state_space_inv state succ default_invariant"

definition state_space_cost ::
  "'s \<Rightarrow> 'c \<Rightarrow> ('s \<Rightarrow> 's list) \<Rightarrow> ('s \<Rightarrow> bool) \<Rightarrow> ('s \<Rightarrow> 'c \<Rightarrow> 'c) \<Rightarrow> ('s, 'c) state_space_t" where
  "state_space_cost state cost succ invariant_fn cost_func =
     \<lparr>initial_state = state, initial_cost = cost, successors_function = succ,
      invariant = invariant_fn, cost_function = cost_func, previous_cost = cost\<rparr>"

text \<open>
  The two exceptions thrown by the engine: \<open>std::logic_error("No solution could be found")\<close>
  in \<open>check\<close> and \<open>std::invalid_argument\<close> in the last branch of \<open>popstate\<close>. The latter
  branch is taken by no value of the enumeration \<open>search_order_t\<close>.
\<close>

datatype error = NoSolutionFound | UnsupportedSearchOrder

subsection \<open>popstate\<close>

text \<open>
  \<open>std::min_element\<close>: the position of the first smallest element. The scan keeps the
  smallest value seen and its position and replaces them only by a strictly smaller one.
  On an empty range it returns the end iterator, at distance 0 from the start.
\<close>

fun min_element_from :: "'c::linorder list \<Rightarrow> nat \<Rightarrow> 'c \<Rightarrow> nat \<Rightarrow> nat" where
  "min_element_from [] i smallest k = k"
| "min_element_from (x # xs) i smallest k =
     (if x < smallest then min_element_from xs (Suc i) x i
      else min_element_from xs (Suc i) smallest k)"

definition min_element :: "'c::linorder list \<Rightarrow> nat" where
  "min_element costs = (case costs of [] \<Rightarrow> 0 | c # cs \<Rightarrow> min_element_from cs 1 c 0)"

text \<open>
  \<open>popstate\<close> removes one state from the deque \<open>waiting\<close> and returns it; under
  \<open>cost_guided\<close> it also assigns the member \<open>previous_cost\<close>. The result is the state,
  the deque and the engine afterwards. On an empty deque the source reads \<open>back()\<close>,
  \<open>front()\<close> or \<open>costs[0]\<close> of an empty container, which is undefined: the model has no
  result there (\<open>None\<close>). \<open>check\<close> calls it on non-empty deques only.
\<close>

definition popstate ::
  "('s, 'c::linorder) state_space_t \<Rightarrow> 's list \<Rightarrow> search_order_t
     \<Rightarrow> ('s \<times> 's list \<times> ('s, 'c) state_space_t) option" where
  "popstate sp waiting search_order =
     (if waiting = [] then None
      else case search_order of
        depth_first \<Rightarrow> Some (last waiting, butlast waiting, sp)
      | breadth_first \<Rightarrow> Some (hd waiting, tl waiting, sp)
      | cost_guided \<Rightarrow>
          (let costs = map (\<lambda>state. cost_function sp state (previous_cost sp)) waiting;
               index = min_element costs
           in Some (waiting ! index,
                    take index waiting @ drop (Suc index) waiting,
                    sp\<lparr>previous_cost := costs ! index\<rparr>)))"

subsection \<open>get\_solution\_from\_trace\<close>

text \<open>
  \<open>trace[curr_state]\<close> on a \<open>std::map\<close>: a missing key is inserted with a
  value-initialised state, which is returned.
\<close>

definition trace_at :: "('s::default \<rightharpoonup> 's) \<Rightarrow> 's \<Rightarrow> 's \<times> ('s \<rightharpoonup> 's)" where
  "trace_at trace curr_state =
     (case trace curr_state of
        Some state \<Rightarrow> (state, trace)
      | None \<Rightarrow> (default, trace(curr_state \<mapsto> default)))"

text \<open>
  The backtracking loop. \<open>state\<close> and \<open>curr_state\<close> are equal whenever the loop condition
  is tested, so one variable stands for both. Nothing bounds the number of iterations: the
  loop is a partial function, with \<open>None\<close> for a walk that never reaches the initial state.
\<close>

partial_function (option) backtrack ::
  "'s::default \<Rightarrow> ('s \<rightharpoonup> 's) \<Rightarrow> 's \<Rightarrow> 's list \<Rightarrow> 's list option" where
  "backtrack init trace state solution =
     (if state = init then Some solution
      else case trace_at trace state of
             (state', trace') \<Rightarrow> backtrack init trace' state' (state' # solution))"

definition get_solution_from_trace ::
  "('s::default, 'c) state_space_t \<Rightarrow> ('s \<rightharpoonup> 's) \<Rightarrow> 's \<Rightarrow> 's list option" where
  "get_solution_from_trace sp trace curr_state =
     backtrack (initial_state sp) trace curr_state [curr_state]"

subsection \<open>check\<close>

text \<open>The local variables of one call of \<open>check\<close>.\<close>

record 's run =
  waiting :: "'s list"
  passed :: "'s list"
  trace :: "'s \<rightharpoonup> 's"

text \<open>
  The body of the \<open>for\<close> loop over the successors of \<open>curr_state\<close>: a successor that
  upholds the invariant and is found neither in \<open>waiting\<close> nor in \<open>passed\<close> is recorded
  in \<open>trace\<close> and pushed to the back of \<open>waiting\<close>.
\<close>

definition admit :: "('s, 'c) state_space_t \<Rightarrow> 's \<Rightarrow> 's run \<Rightarrow> 's \<Rightarrow> 's run" where
  "admit sp curr_state r succ =
     (if invariant sp succ \<and> succ \<notin> set (waiting r) \<and> succ \<notin> set (passed r)
      then r\<lparr>trace := (trace r)(succ \<mapsto> curr_state), waiting := waiting r @ [succ]\<rparr>
      else r)"

definition expand :: "('s, 'c) state_space_t \<Rightarrow> 's \<Rightarrow> 's run \<Rightarrow> 's run" where
  "expand sp curr_state r = foldl (admit sp curr_state) r (successors_function sp curr_state)"

text \<open>
  One test of the \<open>while\<close> condition followed by one execution of the loop body. The
  result is either the way \<open>check\<close> ends (\<open>Inl\<close>: the exception or the solution, with
  the engine as it is left) or the engine and the local variables at the next test of the
  loop condition (\<open>Inr\<close>).
\<close>

type_synonym ('s, 'c) outcome = "(error + 's list) \<times> ('s, 'c) state_space_t"

definition check_step ::
  "('s \<Rightarrow> bool) \<Rightarrow> search_order_t \<Rightarrow> ('s::default, 'c::linorder) state_space_t \<times> 's run
     \<Rightarrow> (('s, 'c) outcome + ('s, 'c) state_space_t \<times> 's run) option" where
  "check_step goal_pred search_order c =
     (case c of (sp, r) \<Rightarrow>
        (if waiting r = [] then Some (Inl (Inl NoSolutionFound, sp))
         else
           (case popstate sp (waiting r) search_order of
              None \<Rightarrow> None
            | Some (curr_state, waiting', sp') \<Rightarrow>
                (if goal_pred curr_state
                 then (case get_solution_from_trace sp' (trace r) curr_state of
                         None \<Rightarrow> None
                       | Some solution \<Rightarrow> Some (Inl (Inr solution, sp')))
                 else Some (Inr (sp', expand sp' curr_state
                              (r\<lparr>waiting := waiting', passed := passed r @ [curr_state]\<rparr>)))))))"

text \<open>The \<open>while\<close> loop: it may run forever on an infinite state space.\<close>

partial_function (option) check_loop ::
  "('s \<Rightarrow> bool) \<Rightarrow> search_order_t \<Rightarrow> ('s::default, 'c::linorder) state_space_t \<times> 's run
     \<Rightarrow> ('s, 'c) outcome option" where
  "check_loop goal_pred search_order c =
     (case check_step goal_pred search_order c of
        None \<Rightarrow> None
      | Some (Inl out) \<Rightarrow> Some out
      | Some (Inr c') \<Rightarrow> check_loop goal_pred search_order c')"

definition initial_run :: "('s, 'c) state_space_t \<Rightarrow> 's run" where
  "initial_run sp = \<lparr>waiting = [initial_state sp], passed = [], trace = Map.empty\<rparr>"

definition check ::
  "('s::default, 'c::linorder) state_space_t \<Rightarrow> ('s \<Rightarrow> bool) \<Rightarrow> search_order_t
     \<Rightarrow> ('s, 'c) outcome option" where
  "check sp goal_pred search_order = check_loop goal_pred search_order (sp, initial_run sp)"

text \<open>
  The engine and the local variables after \<open>n\<close> executions of the loop body, if \<open>check\<close>
  has not ended before.
\<close>

fun steps ::
  "nat \<Rightarrow> ('s \<Rightarrow> bool) \<Rightarrow> search_order_t \<Rightarrow> ('s::default, 'c::linorder) state_space_t \<times> 's run
     \<Rightarrow> (('s, 'c) outcome + ('s, 'c) state_space_t \<times> 's run) option" where
  "steps 0 goal_pred search_order c = Some (Inr c)"
| "steps (Suc n) goal_pred search_order c =
     (case check_step goal_pred search_order c of
        None \<Rightarrow> None
      | Some (Inl out) \<Rightarrow> Some (Inl out)
      | Some (Inr c') \<Rightarrow> steps n goal_pred search_order c')"



section \<open>The leaping frogs (frogs.cpp)\<close>

datatype frog = empty | green | brown

type_synonym stones_t = "frog list"

instantiation list :: (type) default
begin

definition default_list :: "'a list" where
  "default_list = []"

instance ..

end

text \<open>
  The search for the empty stone, \<open>while (i < stones.size() && stones[i]!=frog::empty) ++i\<close>,
  started at \<open>i\<close>.
\<close>

function find_empty :: "stones_t \<Rightarrow> nat \<Rightarrow> nat" where
  "find_empty stones i =
     (if i < length stones \<and> stones ! i \<noteq> empty then find_empty stones (Suc i) else i)"
  by pat_completeness auto
termination
  by (relation "measure (\<lambda>(stones, i). length stones - i)") auto

declare find_empty.simps [simp del]

text \<open>
  The transitions of a state: each is a closure over the position \<open>i\<close> of the empty stone
  that assigns two stones of the state it is applied to. The subtractions are guarded:
  \<open>i - 1\<close> and \<open>i - 2\<close> by \<open>i > 0\<close> and \<open>i > 1\<close>, \<open>stones.size() - 2\<close> by the first test.
\<close>

definition transitions :: "stones_t \<Rightarrow> (stones_t \<Rightarrow> stones_t) list" where
  "transitions stones =
     (if length stones < 2 then []
      else
        (let i = find_empty stones 0 in
         if i = length stones then []
         else
           (if i > 0 \<and> stones ! (i - 1) = green
            then [\<lambda>s. s[i - 1 := empty, i := green]] else []) @
           (if i > 1 \<and> stones ! (i - 2) = green
            then [\<lambda>s. s[i - 2 := empty, i := green]] else []) @
           (if i < length stones - 1 \<and> stones ! (i + 1) = brown
            then [\<lambda>s. s[i + 1 := empty, i := brown]] else []) @
           (if i < length stones - 2 \<and> stones ! (i + 2) = brown
            then [\<lambda>s. s[i + 2 := empty, i := brown]] else [])))"

text \<open>
  \<open>solve\<close>: the loop \<open>while (frogs-->0)\<close> puts the frogs on the stones of \<open>start\<close> and
  \<open>finish\<close>, for \<open>frogs - 1\<close> down to 0; then the state space is searched for \<open>finish\<close>.
  The printing is left out: the result is what \<open>check\<close> returns.
\<close>

fun place_frogs :: "nat \<Rightarrow> stones_t \<times> stones_t \<Rightarrow> stones_t \<times> stones_t" where
  "place_frogs 0 sf = sf"
| "place_frogs (Suc frogs) (start, finish) =
     place_frogs frogs
       (start[frogs := green, length start - frogs - 1 := brown],
        finish[frogs := brown, length finish - frogs - 1 := green])"

definition solve :: "nat \<Rightarrow> search_order_t \<Rightarrow> (stones_t, int) outcome option" where
  "solve frogs order =
     (let stones = frogs * 2 + 1;
          (start, finish) = place_frogs frogs (replicate stones empty, replicate stones empty)
      in check (state_space start (successors transitions)) (\<lambda>state. state = finish) order)"

section \<open>Notions used in the statements\<close>

text \<open>
  \<open>trace_path init succ valid tr c xs\<close>: \<open>xs\<close> leads from the initial state to \<open>c\<close>, every state
  after the first is mapped by the trace map to the state before it, is a successor of it
  and upholds the invariant.
\<close>

inductive trace_path ::
  "'s \<Rightarrow> ('s \<Rightarrow> 's list) \<Rightarrow> ('s \<Rightarrow> bool) \<Rightarrow> ('s \<rightharpoonup> 's) \<Rightarrow> 's \<Rightarrow> 's list \<Rightarrow> bool"
  for init :: 's and succ :: "'s \<Rightarrow> 's list" and valid :: "'s \<Rightarrow> bool" and tr :: "'s \<rightharpoonup> 's" where
  start: "trace_path init succ valid tr init [init]"
| extend: "trace_path init succ valid tr p xs \<Longrightarrow> tr c = Some p \<Longrightarrow> c \<noteq> init
     \<Longrightarrow> c \<in> set (succ p) \<Longrightarrow> valid c \<Longrightarrow> trace_path init succ valid tr c (xs @ [c])"

text \<open>What holds of the local variables of \<open>check\<close> whenever the loop condition is tested.\<close>

definition run_inv :: "('s, 'c) state_space_t \<Rightarrow> 's run \<Rightarrow> bool" where
  "run_inv sp r \<longleftrightarrow>
     distinct (waiting r) \<and> distinct (passed r) \<and> set (waiting r) \<inter> set (passed r) = {} \<and>
     initial_state sp \<in> set (waiting r) \<union> set (passed r) \<and>
     dom (trace r) \<subseteq> set (waiting r) \<union> set (passed r) \<and>
     (\<forall>x \<in> set (waiting r) \<union> set (passed r).
        \<exists>xs. trace_path (initial_state sp) (successors_function sp) (invariant sp) (trace r) x xs)"

definition same_space :: "('s, 'c) state_space_t \<Rightarrow> ('s, 'c) state_space_t \<Rightarrow> bool" where
  "same_space sp sp' \<longleftrightarrow> initial_state sp' = initial_state sp \<and>
     successors_function sp' = successors_function sp \<and> invariant sp' = invariant sp \<and>
     cost_function sp' = cost_function sp \<and> initial_cost sp' = initial_cost sp"

text \<open>
  \<open>legal_path sp xs\<close>: every state of \<open>xs\<close> after the first is a successor of the state
  before it and upholds the invariant. \<open>reach init succ valid n x\<close>: such a path of \<open>n\<close>
  transitions leads from the initial state to \<open>x\<close>.
\<close>

fun legal_path :: "('s, 'c) state_space_t \<Rightarrow> 's list \<Rightarrow> bool" where
  "legal_path sp (x # y # zs) \<longleftrightarrow>
     y \<in> set (successors_function sp x) \<and> invariant sp y \<and> legal_path sp (y # zs)"
| "legal_path sp zs \<longleftrightarrow> True"

inductive reach :: "'s \<Rightarrow> ('s \<Rightarrow> 's list) \<Rightarrow> ('s \<Rightarrow> bool) \<Rightarrow> nat \<Rightarrow> 's \<Rightarrow> bool"
  for init :: 's and succ :: "'s \<Rightarrow> 's list" and valid :: "'s \<Rightarrow> bool" where
  zero: "reach init succ valid 0 init"
| step: "reach init succ valid n x \<Longrightarrow> y \<in> set (succ x) \<Longrightarrow> valid y
     \<Longrightarrow> reach init succ valid (Suc n) y"

text \<open>
  The layers of the breadth-first search. \<open>path_len sp r x n\<close>: the trace map leads from
  \<open>x\<close> back to the initial state in \<open>n\<close> steps. \<open>bfs_layers sp g k A B r\<close>: the frontier is
  \<open>A @ B\<close>, the states of \<open>A\<close> at depth \<open>k\<close> and those of \<open>B\<close> at depth \<open>k + 1\<close>; every
  state reachable in fewer than \<open>k\<close> transitions is in \<open>passed\<close>, every state reachable in
  \<open>k\<close> is in \<open>A\<close> or \<open>passed\<close>, and no state of \<open>passed\<close> is a goal. \<open>closed_run\<close>: the
  admissible successors of the states of \<open>passed\<close> are in \<open>waiting\<close> or \<open>passed\<close>.
  \<open>bfs_mid\<close> is the same while the successors of \<open>x\<close> are visited, \<open>pre\<close> being those
  visited so far.
\<close>

definition path_len :: "('s, 'c) state_space_t \<Rightarrow> 's run \<Rightarrow> 's \<Rightarrow> nat \<Rightarrow> bool" where
  "path_len sp r x n \<longleftrightarrow>
     (\<exists>xs. trace_path (initial_state sp) (successors_function sp) (invariant sp) (trace r) x xs \<and>
           length xs = Suc n)"

definition bfs_layers ::
  "('s, 'c) state_space_t \<Rightarrow> ('s \<Rightarrow> bool) \<Rightarrow> nat \<Rightarrow> 's list \<Rightarrow> 's list \<Rightarrow> 's run \<Rightarrow> bool" where
  "bfs_layers sp g k A B r \<longleftrightarrow>
     waiting r = A @ B \<and>
     (\<forall>x \<in> set A. path_len sp r x k) \<and>
     (\<forall>x \<in> set B. path_len sp r x (Suc k)) \<and>
     (\<forall>j x. j < k \<and> reach (initial_state sp) (successors_function sp) (invariant sp) j x
            \<longrightarrow> x \<in> set (passed r)) \<and>
     (\<forall>x. reach (initial_state sp) (successors_function sp) (invariant sp) k x
          \<longrightarrow> x \<in> set A \<union> set (passed r)) \<and>
     (\<forall>x \<in> set (passed r). \<not> g x)"

definition closed_run :: "('s, 'c) state_space_t \<Rightarrow> 's run \<Rightarrow> bool" where
  "closed_run sp r \<longleftrightarrow>
     (\<forall>x \<in> set (passed r). \<forall>y \<in> set (successors_function sp x).
        invariant sp y \<longrightarrow> y \<in> set (waiting r) \<union> set (passed r))"

definition bfs_mid ::
  "('s, 'c) state_space_t \<Rightarrow> ('s \<Rightarrow> bool) \<Rightarrow> nat \<Rightarrow> 's \<Rightarrow> 's list \<Rightarrow> 's list \<Rightarrow> 's list
     \<Rightarrow> 's run \<Rightarrow> bool" where
  "bfs_mid sp g k x pre A B r \<longleftrightarrow>
     bfs_layers sp g k A B r \<and> path_len sp r x k \<and> x \<in> set (passed r) \<and>
     (\<forall>p \<in> set (passed r) - {x}. \<forall>y \<in> set (successors_function sp p).
        invariant sp y \<longrightarrow> y \<in> set (waiting r) \<union> set (passed r)) \<and>
     (\<forall>y \<in> set pre. invariant sp y \<longrightarrow> y \<in> set (waiting r) \<union> set (passed r))"


text \<open>The partial functions are evaluated by their recursion equations.\<close>

declare check_loop.simps [code]
declare backtrack.simps [code]

section \<open>A small state space for examples\<close>

text \<open>Integers as states (\<open>int{}\<close> is 0): 0 leads to 1 and 2, both lead to 3.\<close>

instantiation int :: default
begin

definition default_int :: int where
  "default_int = 0"

instance ..

end

definition diamond :: "int \<Rightarrow> (int \<Rightarrow> int) list" where
  "diamond s = (if s = 0 then [\<lambda>x. 1, \<lambda>x. 2] else if s = 1 \<or> s = 2 then [\<lambda>x. 3] else [])"


text \<open>A cost function that depends on the previous cost.\<close>

definition example_cost :: "int \<Rightarrow> int \<Rightarrow> int" where
  "example_cost s prev_cost = (if s = 2 then 4 else prev_cost + 1)"

section \<open>The loop and its iterations\<close>

lemma steps_Inl_check_loop:
  "steps n g ord c = Some (Inl out) \<Longrightarrow> check_loop g ord c = Some out"
proof (induction n arbitrary: c)
  case 0
  then show ?case by simp
next
  case (Suc n)
  show ?case
  proof (cases "check_step g ord c")
    case None
    with Suc.prems show ?thesis by simp
  next
    case (Some r)
    show ?thesis
    proof (cases r)
      case (Inl o1)
      with Some Suc.prems show ?thesis
        by (subst check_loop.simps) simp
    next
      case (Inr c')
      with Some Suc.prems have "steps n g ord c' = Some (Inl out)" by simp
      then have "check_loop g ord c' = Some out" by (rule Suc.IH)
      with Some Inr show ?thesis
        by (subst check_loop.simps) simp
    qed
  qed
qed

lemma check_loop_steps:
  assumes "check_loop g ord c = Some out"
  shows "\<exists>n. steps n g ord c = Some (Inl out)"
proof (rule check_loop.raw_induct[where P = "\<lambda>g ord c out. \<exists>n. steps n g ord c = Some (Inl out)", OF _ assms], goal_cases)
  case (1 loop g ord c out)
  show ?case
  proof (cases "check_step g ord c")
    case None
    with 1(2) show ?thesis by simp
  next
    case (Some r)
    show ?thesis
    proof (cases r)
      case (Inl o1)
      with Some 1(2) have "steps (Suc 0) g ord c = Some (Inl out)" by simp
      then show ?thesis by blast
    next
      case (Inr c')
      with Some 1(2) have "loop g ord c' = Some out" by simp
      then obtain n where "steps n g ord c' = Some (Inl out)" using 1(1) by blast
      with Some Inr have "steps (Suc n) g ord c = Some (Inl out)" by simp
      then show ?thesis by blast
    qed
  qed
qed

section \<open>Selecting a state\<close>

lemma min_element_from_spec:
  assumes "length pre = i" "k < i" "pre ! k = m"
    and "\<forall>j<i. m \<le> pre ! j" and "\<forall>j<k. m < pre ! j"
  shows "min_element_from xs i m k < length (pre @ xs) \<and>
         (\<forall>j<length (pre @ xs). (pre @ xs) ! min_element_from xs i m k \<le> (pre @ xs) ! j) \<and>
         (\<forall>j<min_element_from xs i m k. (pre @ xs) ! min_element_from xs i m k < (pre @ xs) ! j)"
  using assms
proof (induction xs arbitrary: pre i m k)
  case Nil
  then show ?case by simp
next
  case (Cons x xs)
  let ?pre = "pre @ [x]"
  show ?case
  proof (cases "x < m")
    case True
    have a: "length ?pre = Suc i" using Cons.prems by simp
    have b: "i < Suc i" by simp
    have c: "?pre ! i = x" using Cons.prems by (simp add: nth_append)
    have d: "\<forall>j<Suc i. x \<le> ?pre ! j"
    proof (intro allI impI)
      fix j assume "j < Suc i"
      then consider "j < i" | "j = i" by linarith
      then show "x \<le> ?pre ! j"
      proof cases
        case 1
        then have "m \<le> pre ! j" using Cons.prems by blast
        with 1 True Cons.prems(1) show ?thesis by (simp add: nth_append)
      next
        case 2
        then show ?thesis using c by simp
      qed
    qed
    have e: "\<forall>j<i. x < ?pre ! j"
    proof (intro allI impI)
      fix j assume j: "j < i"
      then have "m \<le> pre ! j" using Cons.prems by blast
      with j True Cons.prems(1) show "x < ?pre ! j" by (simp add: nth_append)
    qed
    from Cons.IH[OF a b c d e] True show ?thesis by simp
  next
    case False
    have a: "length ?pre = Suc i" using Cons.prems by simp
    have b: "k < Suc i" using Cons.prems by simp
    have c: "?pre ! k = m" using Cons.prems by (simp add: nth_append)
    have d: "\<forall>j<Suc i. m \<le> ?pre ! j"
    proof (intro allI impI)
      fix j assume "j < Suc i"
      then consider "j < i" | "j = i" by linarith
      then show "m \<le> ?pre ! j"
      proof cases
        case 1
        then have "m \<le> pre ! j" using Cons.prems by blast
        with 1 Cons.prems(1) show ?thesis by (simp add: nth_append)
      next
        case 2
        then show ?thesis using False Cons.prems(1) by (simp add: nth_append)
      qed
    qed
    have e: "\<forall>j<k. m < ?pre ! j"
    proof (intro allI impI)
      fix j assume j: "j < k"
      then have "m < pre ! j" using Cons.prems by blast
      with j Cons.prems(1,2) show "m < ?pre ! j" by (simp add: nth_append)
    qed
    from Cons.IH[OF a b c d e] False show ?thesis by simp
  qed
qed

lemma min_element_spec:
  assumes "costs \<noteq> []"
  shows "min_element costs < length costs \<and>
         (\<forall>j<length costs. costs ! min_element costs \<le> costs ! j) \<and>
         (\<forall>j<min_element costs. costs ! min_element costs < costs ! j)"
proof -
  from assms obtain c cs where costs: "costs = c # cs" by (cases costs) auto
  have "min_element_from cs 1 c 0 < length ([c] @ cs) \<and>
         (\<forall>j<length ([c] @ cs). ([c] @ cs) ! min_element_from cs 1 c 0 \<le> ([c] @ cs) ! j) \<and>
         (\<forall>j<min_element_from cs 1 c 0. ([c] @ cs) ! min_element_from cs 1 c 0 < ([c] @ cs) ! j)"
    by (rule min_element_from_spec) simp_all
  then show ?thesis by (simp add: costs min_element_def)
qed

lemma popstate_fields:
  assumes "popstate sp w ord = Some (x, w', sp')"
  shows "initial_state sp' = initial_state sp" "successors_function sp' = successors_function sp"
    "invariant sp' = invariant sp" "cost_function sp' = cost_function sp"
    "initial_cost sp' = initial_cost sp"
  using assms by (auto simp: popstate_def Let_def split: if_splits search_order_t.splits)

lemma popstate_remove:
  assumes "popstate sp w ord = Some (x, w', sp')"
  shows "\<exists>i<length w. x = w ! i \<and> w' = take i w @ drop (Suc i) w"
proof (cases ord)
  case depth_first
  with assms have w: "w \<noteq> []" "x = last w" "w' = butlast w"
    by (auto simp: popstate_def split: if_splits)
  then have "length w - 1 < length w" "x = w ! (length w - 1)"
    "w' = take (length w - 1) w @ drop (Suc (length w - 1)) w"
    by (simp_all add: last_conv_nth butlast_conv_take)
  then show ?thesis by blast
next
  case breadth_first
  with assms have w: "w \<noteq> []" "x = hd w" "w' = tl w"
    by (auto simp: popstate_def split: if_splits)
  then have "0 < length w" "x = w ! 0" "w' = take 0 w @ drop (Suc 0) w"
    by (simp_all add: hd_conv_nth drop_Suc)
  then show ?thesis by blast
next
  case cost_guided
  let ?costs = "map (\<lambda>state. cost_function sp state (previous_cost sp)) w"
  from cost_guided assms have w: "w \<noteq> []" "x = w ! min_element ?costs"
    "w' = take (min_element ?costs) w @ drop (Suc (min_element ?costs)) w"
    by (auto simp: popstate_def Let_def split: if_splits)
  from w(1) have "min_element ?costs < length ?costs" using min_element_spec[of ?costs] by simp
  then have "min_element ?costs < length w" by simp
  with w show ?thesis by blast
qed

lemma popstate_nonempty:
  "w \<noteq> [] \<Longrightarrow> \<exists>x w' sp'. popstate sp w ord = Some (x, w', sp')"
  by (cases ord) (simp_all add: popstate_def Let_def)

lemma set_remove_nth:
  assumes "distinct w" "i < length w"
  shows "set (take i w @ drop (Suc i) w) = set w - {w ! i}" "distinct (take i w @ drop (Suc i) w)"
proof -
  have w: "w = take i w @ w ! i # drop (Suc i) w"
    using assms(2) by (simp add: id_take_nth_drop)
  have d: "distinct (take i w @ w ! i # drop (Suc i) w)" using assms(1) w by simp
  then show "distinct (take i w @ drop (Suc i) w)" by simp
  from d have "w ! i \<notin> set (take i w)" "w ! i \<notin> set (drop (Suc i) w)" by auto
  moreover have "set w = set (take i w) \<union> {w ! i} \<union> set (drop (Suc i) w)"
    by (subst w) auto
  ultimately show "set (take i w @ drop (Suc i) w) = set w - {w ! i}" by auto
qed

lemma popstate_set:
  assumes "popstate sp w ord = Some (x, w', sp')" "distinct w"
  shows "x \<in> set w" "set w' = set w - {x}" "distinct w'"
proof -
  from popstate_remove[OF assms(1)] obtain i where i: "i < length w" "x = w ! i"
    "w' = take i w @ drop (Suc i) w" by blast
  show "x \<in> set w" using i by simp
  show "set w' = set w - {x}" using set_remove_nth(1)[OF assms(2) i(1)] i by simp
  show "distinct w'" using set_remove_nth(2)[OF assms(2) i(1)] i by simp
qed

section \<open>The invariant of the search loop\<close>

lemma steps_invariant:
  assumes "steps n g ord c = Some (Inr c')" and "I c"
    and "\<And>c c'. I c \<Longrightarrow> check_step g ord c = Some (Inr c') \<Longrightarrow> I c'"
  shows "I c'"
  using assms(1,2)
proof (induction n arbitrary: c)
  case 0
  then show ?case by simp
next
  case (Suc n)
  from Suc.prems(1) obtain c1 where c1: "check_step g ord c = Some (Inr c1)"
    "steps n g ord c1 = Some (Inr c')"
    by (auto split: option.splits sum.splits)
  from assms(3)[OF Suc.prems(2) c1(1)] have "I c1" .
  with c1(2) show ?case by (rule Suc.IH)
qed

lemma steps_Inl_last:
  assumes "steps n g ord c = Some (Inl out)"
  shows "\<exists>m c'. m < n \<and> steps m g ord c = Some (Inr c') \<and> check_step g ord c' = Some (Inl out)"
  using assms
proof (induction n arbitrary: c)
  case 0
  then show ?case by simp
next
  case (Suc n)
  show ?case
  proof (cases "check_step g ord c")
    case None
    with Suc.prems show ?thesis by simp
  next
    case (Some r)
    show ?thesis
    proof (cases r)
      case (Inl o1)
      with Some Suc.prems have "check_step g ord c = Some (Inl out)" by simp
      moreover have "steps 0 g ord c = Some (Inr c)" by simp
      ultimately show ?thesis by blast
    next
      case (Inr c1)
      with Some Suc.prems have "steps n g ord c1 = Some (Inl out)" by simp
      from Suc.IH[OF this] obtain m c' where m: "m < n" "steps m g ord c1 = Some (Inr c')"
        "check_step g ord c' = Some (Inl out)" by blast
      from m(2) Some Inr have "steps (Suc m) g ord c = Some (Inr c')" by simp
      with m(1,3) show ?thesis by (metis Suc_mono)
    qed
  qed
qed

lemma steps_add:
  assumes "steps m g ord c = Some (Inr c')"
  shows "steps (m + n) g ord c = steps n g ord c'"
  using assms
proof (induction m arbitrary: c)
  case 0
  then show ?case by simp
next
  case (Suc m)
  from Suc.prems obtain c1 where c1: "check_step g ord c = Some (Inr c1)"
    "steps m g ord c1 = Some (Inr c')"
    by (auto split: option.splits sum.splits)
  from Suc.IH[OF c1(2)] c1(1) show ?case by simp
qed

lemma check_step_cases:
  assumes "check_step g ord (sp, r) = Some res"
  obtains (exhausted) "waiting r = []" "res = Inl (Inl NoSolutionFound, sp)"
  | (found) x w' sp' sol where "waiting r \<noteq> []" "popstate sp (waiting r) ord = Some (x, w', sp')"
      "g x" "get_solution_from_trace sp' (trace r) x = Some sol" "res = Inl (Inr sol, sp')"
  | (expanded) x w' sp' where "waiting r \<noteq> []" "popstate sp (waiting r) ord = Some (x, w', sp')"
      "\<not> g x" "res = Inr (sp', expand sp' x (r\<lparr>waiting := w', passed := passed r @ [x]\<rparr>))"
  using assms
  by (auto simp: check_step_def split: if_splits option.splits)

lemma trace_path_mono:
  assumes "trace_path init succ valid tr x xs" "c \<notin> dom tr"
  shows "trace_path init succ valid (tr(c \<mapsto> p)) x xs"
  using assms
proof (induction rule: trace_path.induct)
  case start
  show ?case by (rule trace_path.start)
next
  case (extend p' xs c')
  from extend.hyps(2) extend.prems have "c' \<noteq> c" by auto
  with extend.hyps(2) have "(tr(c \<mapsto> p)) c' = Some p'" by simp
  with extend show ?case by (auto intro: trace_path.extend)
qed

lemma trace_path_props:
  assumes "trace_path init succ valid tr x xs"
  shows "xs \<noteq> [] \<and> hd xs = init \<and> last xs = x \<and>
         (\<forall>i. Suc i < length xs \<longrightarrow> xs ! Suc i \<in> set (succ (xs ! i)) \<and> valid (xs ! Suc i))"
  using assms
proof (induction rule: trace_path.induct)
  case start
  show ?case by simp
next
  case (extend p xs c)
  then have xs: "xs \<noteq> []" "hd xs = init" "last xs = p" by simp_all
  have "(xs @ [c]) ! Suc i \<in> set (succ ((xs @ [c]) ! i)) \<and> valid ((xs @ [c]) ! Suc i)"
    if "Suc i < length (xs @ [c])" for i
  proof (cases "Suc i < length xs")
    case True
    with extend.IH show ?thesis by (simp add: nth_append)
  next
    case False
    with that have i: "Suc i = length xs" by simp
    then have "xs ! i = p" using xs by (metis diff_Suc_1 last_conv_nth)
    with i extend.hyps show ?thesis by (simp add: nth_append)
  qed
  with xs show ?case by simp
qed

lemma backtrack_trace_path:
  assumes "trace_path init succ valid tr x xs"
  shows "backtrack init tr x (x # rest) = Some (xs @ rest)"
  using assms
proof (induction arbitrary: rest rule: trace_path.induct)
  case start
  show ?case by (subst backtrack.simps) simp
next
  case (extend p xs c)
  have "backtrack init tr c (c # rest) = backtrack init tr p (p # c # rest)"
    using extend.hyps by (subst backtrack.simps) (simp add: trace_at_def)
  also have "\<dots> = Some (xs @ c # rest)" by (rule extend.IH)
  finally show ?case by simp
qed

lemma run_inv_initial: "run_inv sp (initial_run sp)"
  by (auto simp: run_inv_def initial_run_def intro: trace_path.start)

lemma admit_run_inv:
  assumes "run_inv sp r" "x \<in> set (passed r)" "c \<in> set (successors_function sp x)"
  shows "run_inv sp (admit sp x r c)"
proof (cases "invariant sp c \<and> c \<notin> set (waiting r) \<and> c \<notin> set (passed r)")
  case False
  then have "admit sp x r c = r" by (auto simp: admit_def)
  with assms(1) show ?thesis by simp
next
  case True
  let ?tp = "trace_path (initial_state sp) (successors_function sp) (invariant sp)"
  have r': "admit sp x r c = r\<lparr>trace := (trace r)(c \<mapsto> x), waiting := waiting r @ [c]\<rparr>"
    using True by (simp add: admit_def)
  from assms(1) True have cdom: "c \<notin> dom (trace r)" by (auto simp: run_inv_def)
  from assms(1) True have cinit: "c \<noteq> initial_state sp" by (auto simp: run_inv_def)
  have old: "\<exists>xs. ?tp ((trace r)(c \<mapsto> x)) y xs" if "y \<in> set (waiting r) \<union> set (passed r)" for y
  proof -
    from assms(1) that obtain xs where "?tp (trace r) y xs" unfolding run_inv_def by blast
    from trace_path_mono[OF this cdom] show ?thesis by blast
  qed
  from old[of x] assms(2) obtain xs where xs: "?tp ((trace r)(c \<mapsto> x)) x xs" by blast
  have "?tp ((trace r)(c \<mapsto> x)) c (xs @ [c])"
    using xs cinit assms(3) True by (intro trace_path.extend) simp_all
  then have new: "\<exists>xs. ?tp ((trace r)(c \<mapsto> x)) c xs" by blast
  have w: "waiting (admit sp x r c) = waiting r @ [c]" "passed (admit sp x r c) = passed r"
    "trace (admit sp x r c) = (trace r)(c \<mapsto> x)" by (simp_all add: r')
  have 1: "distinct (waiting r @ [c])" using assms(1) True by (simp add: run_inv_def)
  have 2: "distinct (passed r)" using assms(1) by (simp add: run_inv_def)
  have 3: "set (waiting r @ [c]) \<inter> set (passed r) = {}"
    using assms(1) True by (simp add: run_inv_def)
  have 4: "initial_state sp \<in> set (waiting r @ [c]) \<union> set (passed r)"
    using assms(1) by (auto simp: run_inv_def)
  have 5: "dom ((trace r)(c \<mapsto> x)) \<subseteq> set (waiting r @ [c]) \<union> set (passed r)"
    using assms(1) by (auto simp: run_inv_def)
  have 6: "\<exists>xs. ?tp ((trace r)(c \<mapsto> x)) y xs"
    if "y \<in> set (waiting r @ [c]) \<union> set (passed r)" for y
  proof (cases "y = c")
    case True
    with new show ?thesis by simp
  next
    case False
    with that have "y \<in> set (waiting r) \<union> set (passed r)" by auto
    then show ?thesis by (rule old)
  qed
  have 7: "\<forall>y\<in>set (waiting r @ [c]) \<union> set (passed r). \<exists>xs. ?tp ((trace r)(c \<mapsto> x)) y xs"
    using 6 by blast
  show ?thesis
    unfolding run_inv_def w by (intro conjI 1 2 3 4 5 7)
qed

lemma admit_passed: "passed (admit sp x r c) = passed r"
  by (simp add: admit_def)

lemma foldl_admit_run_inv:
  assumes "run_inv sp r" "x \<in> set (passed r)" "set cs \<subseteq> set (successors_function sp x)"
  shows "run_inv sp (foldl (admit sp x) r cs)"
  using assms
proof (induction cs arbitrary: r)
  case Nil
  then show ?case by simp
next
  case (Cons c cs)
  have "run_inv sp (admit sp x r c)" using Cons.prems by (intro admit_run_inv) auto
  moreover have "x \<in> set (passed (admit sp x r c))" using Cons.prems by (simp add: admit_passed)
  ultimately show ?case using Cons.prems Cons.IH by simp
qed

lemma run_inv_cong:
  assumes "initial_state sp' = initial_state sp" "successors_function sp' = successors_function sp"
    "invariant sp' = invariant sp"
  shows "run_inv sp' r = run_inv sp r"
  using assms by (simp add: run_inv_def)

lemma run_inv_pop:
  assumes "run_inv sp r" "popstate sp (waiting r) ord = Some (x, w', sp')"
  shows "run_inv sp' (r\<lparr>waiting := w', passed := passed r @ [x]\<rparr>)"
proof -
  from assms(1) have d: "distinct (waiting r)" by (simp add: run_inv_def)
  note ps = popstate_set[OF assms(2) d]
  have 1: "distinct w'" by (rule ps(3))
  have 2: "distinct (passed r @ [x])" using assms(1) ps(1) by (auto simp: run_inv_def)
  have 3: "set w' \<inter> set (passed r @ [x]) = {}" using assms(1) ps(2) by (auto simp: run_inv_def)
  have 4: "set w' \<union> set (passed r @ [x]) = set (waiting r) \<union> set (passed r)"
    using ps(1,2) by auto
  let ?r = "r\<lparr>waiting := w', passed := passed r @ [x]\<rparr>"
  have f: "waiting ?r = w'" "passed ?r = passed r @ [x]" "trace ?r = trace r" by simp_all
  have 5: "initial_state sp \<in> set (waiting r) \<union> set (passed r)"
    and 6: "dom (trace r) \<subseteq> set (waiting r) \<union> set (passed r)"
    and 7: "\<forall>x \<in> set (waiting r) \<union> set (passed r).
        \<exists>xs. trace_path (initial_state sp) (successors_function sp) (invariant sp) (trace r) x xs"
    using assms(1) unfolding run_inv_def by blast+
  have "run_inv sp ?r"
    unfolding run_inv_def f 4 by (intro conjI 1 2 3 5 6 7)
  with run_inv_cong[OF popstate_fields(1,2,3)[OF assms(2)]] show ?thesis by simp
qed

lemma check_step_run_inv:
  assumes "run_inv sp r" "check_step g ord (sp, r) = Some (Inr (sp', r'))"
  shows "run_inv sp' r'"
  using assms(2)
proof (cases rule: check_step_cases)
  case (expanded x w' sp1)
  then have eq: "sp' = sp1" "r' = expand sp1 x (r\<lparr>waiting := w', passed := passed r @ [x]\<rparr>)"
    by simp_all
  have "run_inv sp1 (r\<lparr>waiting := w', passed := passed r @ [x]\<rparr>)"
    using assms(1) expanded(2) by (rule run_inv_pop)
  then show ?thesis unfolding eq expand_def
    by (rule foldl_admit_run_inv) simp_all
qed simp_all

lemma check_step_same_space:
  assumes "check_step g ord (sp, r) = Some (Inr (sp', r'))"
  shows "same_space sp sp'"
  using assms
  by (cases rule: check_step_cases) (auto simp: same_space_def dest: popstate_fields)

lemma steps_run_inv:
  assumes "steps n g ord (sp, initial_run sp) = Some (Inr (sp', r'))"
  shows "run_inv sp' r' \<and> same_space sp sp'"
proof -
  have "(\<lambda>(sp1, r1). run_inv sp1 r1 \<and> same_space sp sp1) (sp', r')"
  proof (rule steps_invariant[OF assms])
    show "case (sp, initial_run sp) of (sp1, r1) \<Rightarrow> run_inv sp1 r1 \<and> same_space sp sp1"
      by (simp add: run_inv_initial same_space_def)
  next
    fix c c' :: "('a, 'b) state_space_t \<times> 'a run"
    assume a: "case c of (sp1, r1) \<Rightarrow> run_inv sp1 r1 \<and> same_space sp sp1"
      and b: "check_step g ord c = Some (Inr c')"
    obtain sp1 r1 where c: "c = (sp1, r1)" by (cases c)
    obtain sp2 r2 where c': "c' = (sp2, r2)" by (cases c')
    from a b c c' check_step_run_inv[of sp1 r1 g ord sp2 r2] check_step_same_space[of g ord sp1 r1 sp2 r2]
    show "case c' of (sp1, r1) \<Rightarrow> run_inv sp1 r1 \<and> same_space sp sp1"
      by (auto simp: same_space_def)
  qed
  then show ?thesis by simp
qed

lemma check_solution_general:
  assumes "check sp g ord = Some (Inr sol, sp')"
  shows "sol \<noteq> [] \<and> hd sol = initial_state sp \<and> g (last sol) \<and>
    (\<forall>i. Suc i < length sol \<longrightarrow>
       sol ! Suc i \<in> set (successors_function sp (sol ! i)) \<and> invariant sp (sol ! Suc i))"
proof -
  from assms obtain n where "steps n g ord (sp, initial_run sp) = Some (Inl (Inr sol, sp'))"
    unfolding check_def using check_loop_steps by blast
  from steps_Inl_last[OF this] obtain m c1 where
    m: "steps m g ord (sp, initial_run sp) = Some (Inr c1)"
      "check_step g ord c1 = Some (Inl (Inr sol, sp'))" by blast
  obtain sp1 r1 where c1: "c1 = (sp1, r1)" by (cases c1)
  from steps_run_inv m(1) c1 have rinv: "run_inv sp1 r1" and same: "same_space sp sp1" by blast+
  from m(2)[unfolded c1] show ?thesis
  proof (cases rule: check_step_cases)
    case (found x w' sp2 sol')
    from rinv have d: "distinct (waiting r1)" by (simp add: run_inv_def)
    from popstate_set(1)[OF found(2) d] rinv obtain xs where
      xs: "trace_path (initial_state sp1) (successors_function sp1) (invariant sp1) (trace r1) x xs"
      unfolding run_inv_def by blast
    from popstate_fields(1)[OF found(2)] backtrack_trace_path[OF xs, of "[]"] found(4)
    have "sol' = xs" by (simp add: get_solution_from_trace_def)
    with found(5) have "sol = xs" by simp
    with trace_path_props[OF xs] found(3) same show ?thesis
      by (simp add: same_space_def)
  qed simp_all
qed

text \<open>On the states of a run the model of the loop body always has a result: a run that has no
  result is a run that does not end.\<close>

lemma check_step_defined:
  fixes sp :: "('s::default, 'c::linorder) state_space_t"
  assumes "run_inv sp r"
  shows "\<exists>res. check_step g ord (sp, r) = Some res"
proof (cases "waiting r = []")
  case True
  then show ?thesis by (simp add: check_step_def)
next
  case False
  from popstate_nonempty[OF False, of sp ord] obtain x w' sp' where
    p: "popstate sp (waiting r) ord = Some (x, w', sp')" by blast
  from assms have d: "distinct (waiting r)" by (simp add: run_inv_def)
  from popstate_set(1)[OF p d] assms obtain xs where
    xs: "trace_path (initial_state sp) (successors_function sp) (invariant sp) (trace r) x xs"
    unfolding run_inv_def by blast
  from backtrack_trace_path[OF xs, of "[]"] popstate_fields(1)[OF p]
  have "get_solution_from_trace sp' (trace r) x = Some xs"
    by (simp add: get_solution_from_trace_def)
  with False p show ?thesis by (simp add: check_step_def)
qed


section \<open>Soundness of the returned solution\<close>

text \<open>
  C1. For every search order: a solution sequence returned by \<open>check\<close> starts with the
  initial state, ends in a state accepted by the goal predicate, every state after the
  first is produced from the state before it by a transition that the generator returns
  there, and every state after the first upholds the invariant.
\<close>

theorem check_solution_sound:
  assumes "successors_function sp = successors generator"
    and "check sp goal_pred search_order = Some (Inr solution, sp')"
  shows "solution \<noteq> [] \<and> hd solution = initial_state sp \<and> goal_pred (last solution) \<and>
    (\<forall>i. Suc i < length solution \<longrightarrow>
       (\<exists>t \<in> set (generator (solution ! i)). t (solution ! i) = solution ! Suc i) \<and>
       invariant sp (solution ! Suc i))"
proof -
  note g = check_solution_general[OF assms(2)]
  have "(\<exists>t \<in> set (generator (solution ! i)). t (solution ! i) = solution ! Suc i) \<and>
       invariant sp (solution ! Suc i)" if "Suc i < length solution" for i
  proof -
    from g that have "solution ! Suc i \<in> set (successors generator (solution ! i))"
      and "invariant sp (solution ! Suc i)" by (simp_all add: assms(1))
    then show ?thesis by (auto simp: successors_def)
  qed
  with g show ?thesis by blast
qed

lemma diamond_bfs:
  "map_option fst (check (state_space 0 (successors diamond)) (\<lambda>s. s = 3) breadth_first)
     = Some (Inr [0, 1, 3])"
  by code_simp

theorem check_solution_sound_witness:
  "map_option fst (check (state_space 0 (successors diamond)) (\<lambda>s. s = 3) breadth_first)
     = Some (Inr [0, 1, 3]) \<and>
   hd [0, 1, 3 :: int] = initial_state (state_space 0 (successors diamond)) \<and>
   last [0, 1, 3 :: int] = 3 \<and>
   (\<exists>t. t \<in> set (diamond 1) \<and> t 1 = 3) \<and>
   invariant (state_space 0 (successors diamond)) 3"
proof -
  let ?sp = "state_space 0 (successors diamond)"
  from diamond_bfs obtain sp' where
    c: "check ?sp (\<lambda>s. s = 3) breadth_first = Some (Inr [0, 1, 3], sp')" by auto
  have s: "successors_function ?sp = successors diamond"
    by (simp add: state_space_def state_space_inv_def)
  from check_solution_sound[OF s c] have
    "hd [0, 1, 3 :: int] = initial_state ?sp" "last [0, 1, 3 :: int] = 3"
    "\<forall>i. Suc i < length [0, 1, 3 :: int] \<longrightarrow>
       (\<exists>t \<in> set (diamond ([0, 1, 3] ! i)). t ([0, 1, 3] ! i) = [0, 1, 3] ! Suc i) \<and>
       invariant ?sp ([0, 1, 3] ! Suc i)" by blast+
  from this(1,2) this(3)[rule_format, of 1] diamond_bfs show ?thesis by auto
qed

lemma foldl_admit_passed: "passed (foldl (admit sp x) r cs) = passed r"
  by (induction cs arbitrary: r) (simp_all add: admit_passed)


section \<open>Admission of candidates\<close>

text \<open>
  C5. The \<open>j\<close>-th successor \<open>c\<close> of the state \<open>s\<close> being expanded is admitted if and only
  if the invariant accepts it and it is neither in \<open>waiting\<close> nor in \<open>passed\<close> at that
  moment. When it is admitted, \<open>trace[c] = s\<close> is recorded and \<open>c\<close> is pushed to the back
  of \<open>waiting\<close>, and nothing else changes; when it is rejected, \<open>waiting\<close>, \<open>passed\<close> and
  \<open>trace\<close> stay as they are. \<open>before\<close> and \<open>after\<close> are the local variables before and after
  the \<open>j\<close>-th iteration of the \<open>for\<close> loop.
\<close>

theorem candidate_admission:
  fixes sp :: "('s, 'c) state_space_t" and r :: "'s run" and s :: 's
  assumes "j < length (successors_function sp s)"
  defines "c \<equiv> successors_function sp s ! j"
    and "before \<equiv> foldl (admit sp s) r (take j (successors_function sp s))"
    and "after \<equiv> foldl (admit sp s) r (take (Suc j) (successors_function sp s))"
  shows "(waiting after = waiting before @ [c] \<longleftrightarrow>
            invariant sp c \<and> c \<notin> set (waiting before) \<and> c \<notin> set (passed before)) \<and>
         (waiting after = waiting before @ [c] \<longrightarrow>
            after = before\<lparr>trace := (trace before)(c \<mapsto> s), waiting := waiting before @ [c]\<rparr> \<and>
            trace after c = Some s \<and> passed after = passed before) \<and>
         (waiting after \<noteq> waiting before @ [c] \<longrightarrow> after = before) \<and>
         expand sp s r = foldl (admit sp s) r (take (length (successors_function sp s)) (successors_function sp s))"
proof -
  have a: "after = admit sp s before c"
    using assms(1) by (simp add: after_def before_def c_def take_Suc_conv_app_nth)
  show ?thesis unfolding a by (simp add: admit_def expand_def)
qed

theorem candidate_admission_witness:
  "(0::nat) < length (successors_function (state_space 0 (successors diamond)) 0) \<and>
   foldl (admit (state_space 0 (successors diamond)) 0)
     \<lparr>waiting = [], passed = [0], trace = Map.empty\<rparr>
     (take (Suc 0) (successors_function (state_space 0 (successors diamond)) 0))
   = \<lparr>waiting = [1], passed = [0], trace = [1 \<mapsto> 0]\<rparr>"
proof -
  let ?sp = "state_space (0::int) (successors diamond)"
  have l: "(0::nat) < length (successors_function ?sp 0)"
    by (simp add: state_space_def state_space_inv_def successors_def diamond_def)
  have i: "invariant ?sp (successors_function ?sp 0 ! 0)"
    by (simp add: state_space_def state_space_inv_def default_invariant_def)
  have c: "successors_function ?sp 0 ! 0 = 1"
    by (simp add: state_space_def state_space_inv_def successors_def diamond_def)
  from candidate_admission[OF l, of "\<lparr>waiting = [], passed = [0], trace = Map.empty\<rparr>"] i
  show ?thesis using l by (simp add: c)
qed


section \<open>Cost-guided selection\<close>

text \<open>
  C3. Under cost-guided order, on a non-empty frontier \<open>ws\<close>, \<open>popstate\<close> selects the
  state at the first position \<open>i\<close> whose cost \<open>cost_function s previous_cost\<close>, computed
  for every state of the frontier from the one running \<open>previous_cost\<close>, is minimal: no
  state of the frontier has a smaller cost and every state before position \<open>i\<close> has a
  greater one. The state is removed from the frontier and \<open>previous_cost\<close> becomes its
  cost; the search goes on with that value.
\<close>

theorem popstate_cost_guided:
  fixes sp :: "('s::default, 'c::linorder) state_space_t"
  assumes "ws \<noteq> []"
  defines "cost \<equiv> \<lambda>s. cost_function sp s (previous_cost sp)"
  shows "\<exists>i<length ws.
     popstate sp ws cost_guided =
       Some (ws ! i, take i ws @ drop (Suc i) ws, sp\<lparr>previous_cost := cost (ws ! i)\<rparr>) \<and>
     (\<forall>j<length ws. cost (ws ! i) \<le> cost (ws ! j)) \<and>
     (\<forall>j<i. cost (ws ! i) < cost (ws ! j)) \<and>
     (\<forall>r sp' r'. waiting r = ws \<and> check_step goal_pred cost_guided (sp, r) = Some (Inr (sp', r'))
        \<longrightarrow> previous_cost sp' = cost (ws ! i) \<and> passed r' = passed r @ [ws ! i])"
proof -
  let ?costs = "map cost ws"
  let ?i = "min_element ?costs"
  have ne: "?costs \<noteq> []" using assms(1) by simp
  note m = min_element_spec[OF ne]
  have i: "?i < length ws" using m by simp
  have p: "popstate sp ws cost_guided =
       Some (ws ! ?i, take ?i ws @ drop (Suc ?i) ws, sp\<lparr>previous_cost := cost (ws ! ?i)\<rparr>)"
    using assms(1) i by (simp add: popstate_def Let_def cost_def)
  have le: "\<forall>j<length ws. cost (ws ! ?i) \<le> cost (ws ! j)"
    using m i by simp
  have less: "\<forall>j<?i. cost (ws ! ?i) < cost (ws ! j)"
  proof (intro allI impI)
    fix j assume j: "j < ?i"
    with m have "?costs ! ?i < ?costs ! j" by blast
    with j i show "cost (ws ! ?i) < cost (ws ! j)" by simp
  qed
  have st: "previous_cost sp' = cost (ws ! ?i) \<and> passed r' = passed r @ [ws ! ?i]"
    if "waiting r = ws" "check_step goal_pred cost_guided (sp, r) = Some (Inr (sp', r'))"
    for r sp' r'
    using that(2)
  proof (cases rule: check_step_cases)
    case (expanded x w' sp1)
    from expanded(2) p that(1) have "x = ws ! ?i" "sp1 = sp\<lparr>previous_cost := cost (ws ! ?i)\<rparr>"
      by auto
    with expanded(4) show ?thesis by (simp add: expand_def foldl_admit_passed)
  qed simp_all
  from i p le less st show ?thesis by blast
qed

theorem popstate_cost_guided_witness:
  "[5, 3, 7, 3 :: int] \<noteq> [] \<and>
   (\<exists>i. i < 4 \<and>
      popstate (state_space_cost 0 10 (successors diamond) default_invariant (\<lambda>s p. s + p :: int))
        [5, 3, 7, 3] cost_guided =
      Some ([5, 3, 7, 3] ! i, take i [5, 3, 7, 3] @ drop (Suc i) [5, 3, 7, 3],
            (state_space_cost 0 10 (successors diamond) default_invariant (\<lambda>s p. s + p))
              \<lparr>previous_cost := [5, 3, 7, 3] ! i + 10\<rparr>) \<and>
      [5, 3, 7, 3 :: int] ! i + 10 \<le> 5 + 10) \<and>
   map_option fst
     (popstate (state_space_cost 0 10 (successors diamond) default_invariant (\<lambda>s p. s + p :: int))
        [5, 3, 7, 3] cost_guided) = Some 3"
proof -
  let ?E = "state_space_cost 0 10 (successors diamond) default_invariant (\<lambda>s p. s + p :: int)"
  have ne: "[5, 3, 7, 3 :: int] \<noteq> []" by simp
  let ?ws = "[5, 3, 7, 3 :: int]"
  from popstate_cost_guided[OF ne, of ?E] obtain i where i: "i < length ?ws"
    "popstate ?E ?ws cost_guided =
      Some (?ws ! i, take i ?ws @ drop (Suc i) ?ws,
            ?E\<lparr>previous_cost := cost_function ?E (?ws ! i) (previous_cost ?E)\<rparr>)"
    "\<forall>j<length ?ws. cost_function ?E (?ws ! i) (previous_cost ?E)
        \<le> cost_function ?E (?ws ! j) (previous_cost ?E)"
    by blast
  have c: "cost_function ?E = (\<lambda>s p. s + p)" "previous_cost ?E = 10"
    by (simp_all add: state_space_cost_def)
  from i(1) have i1: "i < 4" by simp
  from i(2) have i2: "popstate ?E ?ws cost_guided =
      Some (?ws ! i, take i ?ws @ drop (Suc i) ?ws, ?E\<lparr>previous_cost := ?ws ! i + 10\<rparr>)"
    unfolding c .
  have "(0::nat) < length ?ws" by simp
  with i(3) have "cost_function ?E (?ws ! i) (previous_cost ?E)
        \<le> cost_function ?E (?ws ! 0) (previous_cost ?E)" by blast
  then have l: "?ws ! i + 10 \<le> 5 + 10" unfolding c by simp
  have v: "map_option fst (popstate ?E [5, 3, 7, 3] cost_guided) = Some 3"
    by (simp add: popstate_def state_space_cost_def min_element_def)
  from ne i1 i2 l v show ?thesis by blast
qed


section \<open>Exhausted frontier\<close>

lemma steps_exhausted:
  assumes "steps n g ord c = Some (Inr (sp', r'))" "waiting r' = []"
  shows "check_loop g ord c = Some (Inl NoSolutionFound, sp')"
proof -
  have "steps (n + 1) g ord c = steps 1 g ord (sp', r')" using assms(1) by (rule steps_add)
  also have "\<dots> = Some (Inl (Inl NoSolutionFound, sp'))"
    using assms(2) by (simp add: check_step_def)
  finally show ?thesis by (rule steps_Inl_check_loop)
qed

lemma foldl_admit_rejected:
  assumes "\<forall>c \<in> set cs. \<not> (invariant sp c \<and> c \<notin> set (waiting r) \<and> c \<notin> set (passed r))"
  shows "foldl (admit sp x) r cs = r"
  using assms
proof (induction cs)
  case Nil
  show ?case by simp
next
  case (Cons c cs)
  then have "admit sp x r c = r" by (auto simp: admit_def)
  with Cons show ?case by simp
qed

lemma popstate_singleton:
  "\<exists>sp'. popstate sp [x] ord = Some (x, [], sp')"
  by (cases ord) (simp_all add: popstate_def Let_def min_element_def)

lemma check_step_initial:
  assumes "\<not> g (initial_state sp)"
  shows "\<exists>sp'. popstate sp [initial_state sp] ord = Some (initial_state sp, [], sp') \<and>
     check_step g ord (sp, initial_run sp) =
       Some (Inr (sp', expand sp' (initial_state sp)
                    \<lparr>waiting = [], passed = [initial_state sp], trace = Map.empty\<rparr>))"
proof -
  from popstate_singleton[of sp "initial_state sp" ord] obtain sp' where
    p: "popstate sp [initial_state sp] ord = Some (initial_state sp, [], sp')" ..
  with assms show ?thesis by (simp add: check_step_def initial_run_def)
qed

text \<open>
  C4. For every search order: when the frontier is empty at a test of the loop condition,
  no selected state having been accepted by the goal predicate in the iterations before,
  \<open>check\<close> ends there and throws the no-solution exception. In particular it does so
  when the invariant rejects every state but the initial one (and the initial state is
  not a goal): the frontier is then empty after the first iteration.
\<close>

theorem check_no_solution:
  fixes sp :: "('s::default, 'c::linorder) state_space_t"
  shows "(steps n goal_pred search_order (sp, initial_run sp) = Some (Inr (sp', r')) \<and>
            waiting r' = []
          \<longrightarrow> check sp goal_pred search_order = Some (Inl NoSolutionFound, sp')) \<and>
         ((\<forall>c. c \<noteq> initial_state sp \<longrightarrow> \<not> invariant sp c) \<and> \<not> goal_pred (initial_state sp)
          \<longrightarrow> (\<exists>sp1 r1. steps 1 goal_pred search_order (sp, initial_run sp) = Some (Inr (sp1, r1)) \<and>
                 waiting r1 = [] \<and>
                 check sp goal_pred search_order = Some (Inl NoSolutionFound, sp1)))"
proof (intro conjI impI)
  assume "steps n goal_pred search_order (sp, initial_run sp) = Some (Inr (sp', r')) \<and>
            waiting r' = []"
  then show "check sp goal_pred search_order = Some (Inl NoSolutionFound, sp')"
    unfolding check_def using steps_exhausted by blast
next
  assume a: "(\<forall>c. c \<noteq> initial_state sp \<longrightarrow> \<not> invariant sp c) \<and> \<not> goal_pred (initial_state sp)"
  let ?init = "initial_state sp"
  let ?r0 = "\<lparr>waiting = [], passed = [?init], trace = Map.empty\<rparr>"
  from a check_step_initial[of goal_pred sp search_order] obtain sp1 where
    p: "popstate sp [?init] search_order = Some (?init, [], sp1)" and
    s: "check_step goal_pred search_order (sp, initial_run sp) =
          Some (Inr (sp1, expand sp1 ?init ?r0))" by blast
  have i: "invariant sp1 = invariant sp" using popstate_fields(3)[OF p] .
  have "\<forall>c \<in> set (successors_function sp1 ?init).
          \<not> (invariant sp1 c \<and> c \<notin> set (waiting ?r0) \<and> c \<notin> set (passed ?r0))"
    using a i by auto
  then have e: "expand sp1 ?init ?r0 = ?r0"
    unfolding expand_def by (rule foldl_admit_rejected)
  from s e have st: "steps 1 goal_pred search_order (sp, initial_run sp) = Some (Inr (sp1, ?r0))"
    by simp
  have w: "waiting ?r0 = []" by simp
  from steps_exhausted[OF st w] have "check sp goal_pred search_order = Some (Inl NoSolutionFound, sp1)"
    by (simp add: check_def)
  with st w show "\<exists>sp1 r1. steps 1 goal_pred search_order (sp, initial_run sp) = Some (Inr (sp1, r1)) \<and>
                 waiting r1 = [] \<and>
                 check sp goal_pred search_order = Some (Inl NoSolutionFound, sp1)" by blast
qed

lemma diamond_dfs_exhausted:
  "map_option (map_sum fst (\<lambda>c. waiting (snd c)))
     (steps 4 (\<lambda>s. s = 7) depth_first
        (state_space 0 (successors diamond), initial_run (state_space 0 (successors diamond))))
   = Some (Inr [])"
  by code_simp

theorem check_no_solution_witness:
  "map_option (map_sum fst (\<lambda>c. waiting (snd c)))
     (steps 4 (\<lambda>s. s = 7) depth_first
        (state_space 0 (successors diamond), initial_run (state_space 0 (successors diamond))))
   = Some (Inr []) \<and>
   map_option fst (check (state_space 0 (successors diamond)) (\<lambda>s. s = 7) depth_first)
   = Some (Inl NoSolutionFound) \<and>
   invariant (state_space_inv 0 (successors diamond) (\<lambda>c. c = 0)) = (\<lambda>c. c = 0) \<and>
   initial_state (state_space_inv 0 (successors diamond) (\<lambda>c. c = 0)) = 0 \<and>
   (0::int) \<noteq> 3 \<and>
   map_option fst (check (state_space_inv 0 (successors diamond) (\<lambda>c. c = 0)) (\<lambda>s. s = 3) cost_guided)
   = Some (Inl NoSolutionFound)"
proof -
  let ?E = "state_space (0::int) (successors diamond)"
  let ?E2 = "state_space_inv (0::int) (successors diamond) (\<lambda>c. c = 0)"
  obtain x where x: "steps 4 (\<lambda>s. s = 7) depth_first (?E, initial_run ?E) = Some x"
    "map_sum fst (\<lambda>c. waiting (snd c)) x = Inr []"
    using diamond_dfs_exhausted by (cases "steps 4 (\<lambda>s. s = 7) depth_first (?E, initial_run ?E)") auto
  from x(2) obtain sp' r' where "x = Inr (sp', r')" "waiting r' = []"
    by (cases x) auto
  with x(1) have s: "steps 4 (\<lambda>s. s = 7) depth_first (?E, initial_run ?E) = Some (Inr (sp', r'))"
    and w: "waiting r' = []" by simp_all
  from check_no_solution[of 4 "\<lambda>s. s = 7" depth_first ?E sp' r'] s w
  have 1: "map_option fst (check ?E (\<lambda>s. s = 7) depth_first) = Some (Inl NoSolutionFound)"
    by simp
  have i: "invariant ?E2 = (\<lambda>c. c = 0)" "initial_state ?E2 = 0"
    by (simp_all add: state_space_inv_def)
  from check_no_solution[of 0 "\<lambda>s. s = 3" cost_guided ?E2] i
  have 2: "map_option fst (check ?E2 (\<lambda>s. s = 3) cost_guided) = Some (Inl NoSolutionFound)"
    by auto
  from diamond_dfs_exhausted 1 i 2 show ?thesis by simp
qed

section \<open>The frontier and the explored states\<close>

lemma check_step_passed:
  assumes "check_step g ord (sp, r) = Some (Inr (sp', r'))"
  shows "\<exists>x. passed r' = passed r @ [x]"
  using assms
  by (cases rule: check_step_cases) (auto simp: expand_def foldl_admit_passed)

lemma steps_passed_mono:
  assumes "steps k g ord (sp, r) = Some (Inr (sp', r'))"
  shows "set (passed r) \<subseteq> set (passed r')"
proof -
  have "(\<lambda>c. set (passed r) \<subseteq> set (passed (snd c))) (sp', r')"
  proof (rule steps_invariant[OF assms])
    show "set (passed r) \<subseteq> set (passed (snd (sp, r)))" by simp
  next
    fix c c' :: "('a, 'b) state_space_t \<times> 'a run"
    assume a: "set (passed r) \<subseteq> set (passed (snd c))" and b: "check_step g ord c = Some (Inr c')"
    obtain sp1 r1 where c: "c = (sp1, r1)" by (cases c)
    obtain sp2 r2 where c': "c' = (sp2, r2)" by (cases c')
    from check_step_passed[of g ord sp1 r1 sp2 r2] b c c' obtain x where
      "passed r2 = passed r1 @ [x]" by auto
    with a c c' show "set (passed r) \<subseteq> set (passed (snd c'))" by auto
  qed
  then show ?thesis by simp
qed

lemma steps_split:
  assumes "steps n g ord c = Some (Inr c')" "m \<le> n"
  shows "\<exists>c''. steps m g ord c = Some (Inr c'') \<and> steps (n - m) g ord c'' = Some (Inr c')"
  using assms
proof (induction m arbitrary: n c)
  case 0
  then show ?case by simp
next
  case (Suc m)
  then obtain n' where n: "n = Suc n'" "m \<le> n'" by (cases n) auto
  from Suc.prems(1) n(1) obtain c1 where c1: "check_step g ord c = Some (Inr c1)"
    "steps n' g ord c1 = Some (Inr c')"
    by (auto split: option.splits sum.splits)
  from Suc.IH[OF c1(2) n(2)] obtain c'' where
    "steps m g ord c1 = Some (Inr c'')" "steps (n' - m) g ord c'' = Some (Inr c')" by blast
  with c1(1) n(1) show ?case by simp
qed

text \<open>
  C6. Throughout a run of \<open>check\<close>, no state is in both \<open>waiting\<close> and \<open>passed\<close>, and no
  state occurs twice in \<open>passed\<close> (nor in \<open>waiting\<close>). This holds whenever the loop
  condition is tested (after \<open>n\<close> iterations), right after a state \<open>x\<close> has been popped,
  and after each of the iterations of the \<open>for\<close> loop over the successors of \<open>x\<close>
  (\<open>mid\<close>, after \<open>j\<close> of them). A state that was in \<open>passed\<close> at an earlier test of the
  loop condition is still in \<open>passed\<close>, and so not in \<open>waiting\<close>, at every later one.
\<close>

theorem waiting_passed_disjoint:
  fixes sp :: "('s::default, 'c::linorder) state_space_t"
  assumes "steps n goal_pred search_order (sp, initial_run sp) = Some (Inr (sp', r'))"
  shows "distinct (passed r') \<and> distinct (waiting r') \<and>
         set (waiting r') \<inter> set (passed r') = {} \<and>
         (\<forall>m sp0 r0. m \<le> n \<and>
              steps m goal_pred search_order (sp, initial_run sp) = Some (Inr (sp0, r0))
            \<longrightarrow> set (passed r0) \<subseteq> set (passed r') \<and> set (passed r0) \<inter> set (waiting r') = {}) \<and>
         (\<forall>x w' sp1 j. popstate sp' (waiting r') search_order = Some (x, w', sp1)
            \<longrightarrow> x \<notin> set w' \<and> x \<notin> set (passed r') \<and> set w' \<inter> set (passed r') = {} \<and>
                (let mid = foldl (admit sp1 x) (r'\<lparr>waiting := w', passed := passed r' @ [x]\<rparr>)
                             (take j (successors_function sp1 x))
                 in distinct (passed mid) \<and> distinct (waiting mid) \<and>
                    set (waiting mid) \<inter> set (passed mid) = {} \<and>
                    passed mid = passed r' @ [x]))"
proof -
  from steps_run_inv[OF assms] have ri: "run_inv sp' r'" by simp
  then have a: "distinct (passed r')" "distinct (waiting r')"
    "set (waiting r') \<inter> set (passed r') = {}" by (simp_all add: run_inv_def)
  have b: "set (passed r0) \<subseteq> set (passed r') \<and> set (passed r0) \<inter> set (waiting r') = {}"
    if "m \<le> n" "steps m goal_pred search_order (sp, initial_run sp) = Some (Inr (sp0, r0))"
    for m sp0 r0
  proof -
    from steps_split[OF assms that(1)] that(2)
    have "steps (n - m) goal_pred search_order (sp0, r0) = Some (Inr (sp', r'))" by simp
    then have "set (passed r0) \<subseteq> set (passed r')" by (rule steps_passed_mono)
    with a(3) show ?thesis by auto
  qed
  have c: "x \<notin> set w' \<and> x \<notin> set (passed r') \<and> set w' \<inter> set (passed r') = {} \<and>
                (let mid = foldl (admit sp1 x) (r'\<lparr>waiting := w', passed := passed r' @ [x]\<rparr>)
                             (take j (successors_function sp1 x))
                 in distinct (passed mid) \<and> distinct (waiting mid) \<and>
                    set (waiting mid) \<inter> set (passed mid) = {} \<and>
                    passed mid = passed r' @ [x])"
    if p: "popstate sp' (waiting r') search_order = Some (x, w', sp1)" for x w' sp1 j
  proof -
    note ps = popstate_set[OF p a(2)]
    let ?r0 = "r'\<lparr>waiting := w', passed := passed r' @ [x]\<rparr>"
    let ?mid = "foldl (admit sp1 x) ?r0 (take j (successors_function sp1 x))"
    have "run_inv sp1 ?r0" using ri p by (rule run_inv_pop)
    then have "run_inv sp1 ?mid"
      by (rule foldl_admit_run_inv) (auto dest: in_set_takeD)
    then have "distinct (passed ?mid)" "distinct (waiting ?mid)"
      "set (waiting ?mid) \<inter> set (passed ?mid) = {}" by (simp_all add: run_inv_def)
    moreover have "passed ?mid = passed r' @ [x]" by (simp add: foldl_admit_passed)
    moreover have "x \<notin> set w'" "x \<notin> set (passed r')" "set w' \<inter> set (passed r') = {}"
      using ps a(3) by auto
    ultimately show ?thesis by (simp add: Let_def)
  qed
  from a b c show ?thesis by blast
qed

lemma diamond_bfs_two_steps:
  "map_option (map_sum fst (\<lambda>c. (waiting (snd c), passed (snd c))))
     (steps 2 (\<lambda>s. s = 3) breadth_first
        (state_space 0 (successors diamond), initial_run (state_space 0 (successors diamond))))
   = Some (Inr ([2, 3], [0, 1]))"
  by code_simp

theorem waiting_passed_disjoint_witness:
  "map_option (map_sum fst (\<lambda>c. (waiting (snd c), passed (snd c))))
     (steps 2 (\<lambda>s. s = 3) breadth_first
        (state_space 0 (successors diamond), initial_run (state_space 0 (successors diamond))))
   = Some (Inr ([2, 3], [0, 1])) \<and>
   distinct [0, 1 :: int] \<and> distinct [2, 3 :: int] \<and> set [2, 3 :: int] \<inter> set [0, 1] = {}"
proof -
  let ?E = "state_space (0::int) (successors diamond)"
  obtain x where x: "steps 2 (\<lambda>s. s = 3) breadth_first (?E, initial_run ?E) = Some x"
    "map_sum fst (\<lambda>c. (waiting (snd c), passed (snd c))) x = Inr ([2, 3], [0, 1])"
    using diamond_bfs_two_steps
    by (cases "steps 2 (\<lambda>s. s = 3) breadth_first (?E, initial_run ?E)") auto
  from x(2) obtain sp' r' where "x = Inr (sp', r')" "waiting r' = [2, 3]" "passed r' = [0, 1]"
    by (cases x) auto
  with x(1) have s: "steps 2 (\<lambda>s. s = 3) breadth_first (?E, initial_run ?E) = Some (Inr (sp', r'))"
    and w: "waiting r' = [2, 3]" "passed r' = [0, 1]" by simp_all
  from waiting_passed_disjoint[OF s] have "distinct (passed r')" "distinct (waiting r')"
    "set (waiting r') \<inter> set (passed r') = {}" by blast+
  then show ?thesis using diamond_bfs_two_steps unfolding w by simp
qed

section \<open>The leaping frogs\<close>

text \<open>
  C8. With two frogs per side, from \<open>GG_BB\<close> to \<open>BB_GG\<close>: the breadth-first search and
  the depth-first search each return a sequence of nine states that starts with \<open>GG_BB\<close>
  and ends with \<open>BB_GG\<close>.
\<close>

theorem frogs_two_per_side:
  "map_option fst (solve 2 breadth_first) =
     Some (Inr [[green, green, empty, brown, brown],
                [green, empty, green, brown, brown],
                [green, brown, green, empty, brown],
                [green, brown, green, brown, empty],
                [green, brown, empty, brown, green],
                [empty, brown, green, brown, green],
                [brown, empty, green, brown, green],
                [brown, brown, green, empty, green],
                [brown, brown, empty, green, green]]) \<and>
   map_option fst (solve 2 depth_first) =
     Some (Inr [[green, green, empty, brown, brown],
                [green, green, brown, empty, brown],
                [green, empty, brown, green, brown],
                [empty, green, brown, green, brown],
                [brown, green, empty, green, brown],
                [brown, green, brown, green, empty],
                [brown, green, brown, empty, green],
                [brown, empty, brown, green, green],
                [brown, brown, empty, green, green]])"
  by code_simp


section \<open>Calling check twice\<close>

text \<open>Under the depth-first and breadth-first orders \<open>check\<close> leaves the engine as it was.\<close>

lemma check_step_engine:
  assumes "ord \<noteq> cost_guided" "check_step g ord (sp, r) = Some res"
  shows "case res of Inl out \<Rightarrow> snd out = sp | Inr c \<Rightarrow> fst c = sp"
  using assms(2)
proof (cases rule: check_step_cases)
  case exhausted
  then show ?thesis by simp
next
  case (found x w' sp' sol)
  from found(2) assms(1) have "sp' = sp" by (cases ord) (simp_all add: popstate_def split: if_splits)
  with found(5) show ?thesis by simp
next
  case (expanded x w' sp')
  from expanded(2) assms(1) have "sp' = sp" by (cases ord) (simp_all add: popstate_def split: if_splits)
  with expanded(4) show ?thesis by simp
qed

lemma check_engine_unchanged:
  assumes "ord \<noteq> cost_guided" "check sp g ord = Some (res, sp')"
  shows "sp' = sp"
proof -
  from assms(2) obtain n where "steps n g ord (sp, initial_run sp) = Some (Inl (res, sp'))"
    unfolding check_def using check_loop_steps by blast
  from steps_Inl_last[OF this] obtain m c1 where
    m: "steps m g ord (sp, initial_run sp) = Some (Inr c1)"
      "check_step g ord c1 = Some (Inl (res, sp'))" by blast
  have "(\<lambda>c. fst c = sp) c1"
  proof (rule steps_invariant[OF m(1)])
    show "fst (sp, initial_run sp) = sp" by simp
  next
    fix c c' :: "('a, 'b) state_space_t \<times> 'a run"
    assume a: "fst c = sp" and b: "check_step g ord c = Some (Inr c')"
    obtain r1 where c: "c = (sp, r1)" using a by (cases c) simp
    from check_step_engine[OF assms(1) b[unfolded c]] show "fst c' = sp" by simp
  qed
  then obtain r1 where "c1 = (sp, r1)" by (cases c1) simp
  with m(2) check_step_engine[OF assms(1), of g sp r1 "Inl (res, sp')"] show ?thesis by simp
qed

lemma check_twice_same:
  assumes "ord \<noteq> cost_guided" "check sp g ord = Some (res, sp')"
  shows "check sp' g ord = Some (res, sp')"
  using assms check_engine_unchanged[OF assms] by simp

text \<open>
  C7. \<open>previous_cost\<close> is a data member that \<open>check\<close> never resets: a second call of
  \<open>check\<close> on the same engine starts from the value the first call left. With a cost
  function that depends on the previous cost, the first cost-guided search of the example
  returns \<open>[0, 1, 3]\<close> and the second one, on the engine as the first left it, returns
  \<open>[0, 2, 3]\<close>.
\<close>

theorem second_check_differs:
  "map_option fst
     (check (state_space_cost 0 0 (successors diamond) default_invariant example_cost)
        (\<lambda>s. s = 3) cost_guided) = Some (Inr [0, 1, 3]) \<and>
   map_option fst
     (Option.bind
        (check (state_space_cost 0 0 (successors diamond) default_invariant example_cost)
           (\<lambda>s. s = 3) cost_guided)
        (\<lambda>first. check (snd first) (\<lambda>s. s = 3) cost_guided)) = Some (Inr [0, 2, 3])"
  by code_simp

section \<open>Two searches side by side\<close>

lemma steps_simulation:
  assumes "R c1 c2"
    and "\<And>c1 c2. R c1 c2 \<Longrightarrow> rel_option (rel_sum Q R) (check_step g1 o1 c1) (check_step g2 o2 c2)"
  shows "rel_option (rel_sum Q R) (steps n g1 o1 c1) (steps n g2 o2 c2)"
  using assms(1)
proof (induction n arbitrary: c1 c2)
  case 0
  then show ?case by simp
next
  case (Suc n)
  from assms(2)[OF Suc.prems]
  have r: "rel_option (rel_sum Q R) (check_step g1 o1 c1) (check_step g2 o2 c2)" .
  show ?case
  proof (cases "check_step g1 o1 c1")
    case None
    with r have "check_step g2 o2 c2 = None" by (cases "check_step g2 o2 c2") simp_all
    with None show ?thesis by simp
  next
    case (Some a)
    with r obtain b where b: "check_step g2 o2 c2 = Some b" "rel_sum Q R a b"
      by (cases "check_step g2 o2 c2") simp_all
    show ?thesis
    proof (cases a)
      case (Inl x)
      with b(2) obtain y where "b = Inl y" "Q x y" by (cases b) simp_all
      with Some b(1) Inl show ?thesis by simp
    next
      case (Inr x)
      with b(2) obtain y where y: "b = Inr y" "R x y" by (cases b) simp_all
      from Suc.IH[OF y(2)] Some b(1) Inr y(1) show ?thesis by simp
    qed
  qed
qed

lemma check_loop_simulation:
  assumes "R c1 c2"
    and "\<And>c1 c2. R c1 c2 \<Longrightarrow> rel_option (rel_sum Q R) (check_step g1 o1 c1) (check_step g2 o2 c2)"
  shows "rel_option Q (check_loop g1 o1 c1) (check_loop g2 o2 c2)"
proof -
  note sim = steps_simulation[of R c1 c2 Q g1 o1 g2 o2, OF assms]
  have 1: "\<exists>y. check_loop g2 o2 c2 = Some y \<and> Q x y" if "check_loop g1 o1 c1 = Some x" for x
  proof -
    from check_loop_steps[OF that] obtain n where n: "steps n g1 o1 c1 = Some (Inl x)" by blast
    from sim[of n] n obtain b where b: "steps n g2 o2 c2 = Some b" "rel_sum Q R (Inl x) b"
      by (cases "steps n g2 o2 c2") simp_all
    from b(2) obtain y where "b = Inl y" "Q x y" by (cases b) simp_all
    with b(1) steps_Inl_check_loop[of n g2 o2 c2 y] show ?thesis by blast
  qed
  have 2: "\<exists>x. check_loop g1 o1 c1 = Some x" if "check_loop g2 o2 c2 = Some y" for y
  proof -
    from check_loop_steps[OF that] obtain n where n: "steps n g2 o2 c2 = Some (Inl y)" by blast
    from sim[of n] n obtain a where a: "steps n g1 o1 c1 = Some a" "rel_sum Q R a (Inl y)"
      by (cases "steps n g1 o1 c1") simp_all
    from a(2) obtain x where "a = Inl x" by (cases a) simp_all
    with a(1) steps_Inl_check_loop[of n g1 o1 c1 x] show ?thesis by blast
  qed
  show ?thesis
  proof (cases "check_loop g1 o1 c1")
    case None
    with 2 have "check_loop g2 o2 c2 = None" by (cases "check_loop g2 o2 c2") auto
    with None show ?thesis by simp
  next
    case (Some x)
    with 1 show ?thesis by auto
  qed
qed





lemma backtrack_init_only:
  "get_solution_from_trace sp1 tr x = get_solution_from_trace sp2 tr x"
  if "initial_state sp1 = initial_state sp2"
  using that by (simp add: get_solution_from_trace_def)

section \<open>The default cost function\<close>

lemma expand_cong:
  assumes "successors_function sp1 = successors_function sp2" "invariant sp1 = invariant sp2"
  shows "expand sp1 x r = expand sp2 x r"
proof -
  have "admit sp1 x = admit sp2 x" by (intro ext) (simp add: admit_def assms(2))
  then show ?thesis by (simp add: expand_def assms(1))
qed

lemma min_element_from_no_smaller:
  assumes "\<forall>x \<in> set xs. \<not> x < m"
  shows "min_element_from xs i m k = k"
  using assms by (induction xs arbitrary: i) simp_all

lemma popstate_default_cost:
  fixes sp :: "('s, int) state_space_t"
  assumes "cost_function sp = default_cost_function" "ws \<noteq> []"
  shows "popstate sp ws cost_guided = Some (hd ws, tl ws, sp\<lparr>previous_cost := 0\<rparr>)"
proof -
  from assms(2) obtain w ws' where ws: "ws = w # ws'" by (cases ws) auto
  have "min_element_from (map (\<lambda>state. 0::int) ws') 1 0 0 = 0"
    by (rule min_element_from_no_smaller) simp
  then have "min_element (map (\<lambda>state. default_cost_function state (previous_cost sp)) ws) = 0"
    by (simp add: ws min_element_def default_cost_function_def)
  then show ?thesis
    by (simp add: popstate_def Let_def assms(1) ws default_cost_function_def)
qed

lemma check_step_default_cost:
  fixes sp1 sp2 :: "('s::default, int) state_space_t"
  assumes "same_space sp1 sp2" "cost_function sp1 = default_cost_function"
  shows "rel_option (rel_sum (\<lambda>a b. fst a = fst b)
            (\<lambda>a b. snd a = snd b \<and> same_space (fst a) (fst b) \<and>
                   cost_function (fst a) = default_cost_function))
           (check_step g cost_guided (sp1, r)) (check_step g breadth_first (sp2, r))"
proof (cases "waiting r = []")
  case True
  then show ?thesis by (simp add: check_step_def)
next
  case False
  let ?x = "hd (waiting r)"
  let ?sp1 = "sp1\<lparr>previous_cost := 0\<rparr>"
  let ?r0 = "r\<lparr>waiting := tl (waiting r), passed := passed r @ [?x]\<rparr>"
  have p1: "popstate sp1 (waiting r) cost_guided = Some (?x, tl (waiting r), ?sp1)"
    using assms(2) False by (rule popstate_default_cost)
  have p2: "popstate sp2 (waiting r) breadth_first = Some (?x, tl (waiting r), sp2)"
    using False by (simp add: popstate_def)
  have s: "same_space ?sp1 sp2" "cost_function ?sp1 = default_cost_function"
    using assms by (simp_all add: same_space_def)
  have g: "get_solution_from_trace ?sp1 (trace r) ?x = get_solution_from_trace sp2 (trace r) ?x"
    using assms(1) by (simp add: get_solution_from_trace_def same_space_def)
  have e: "expand ?sp1 ?x ?r0 = expand sp2 ?x ?r0"
    using assms(1) by (intro expand_cong) (simp_all add: same_space_def)
  show ?thesis
  proof (cases "g ?x")
    case True
    then show ?thesis
      using False p1 p2 g
      by (cases "get_solution_from_trace sp2 (trace r) ?x") (simp_all add: check_step_def)
  next
    case no: False
    then show ?thesis
      using False p1 p2 e s by (simp add: check_step_def)
  qed
qed

lemma rel_option_fst_snd:
  assumes "rel_option (rel_sum (\<lambda>a b. fst a = fst b) (\<lambda>a b. snd a = snd b \<and> P a b)) x y"
  shows "map_option (map_sum fst snd) x = map_option (map_sum fst snd) y"
proof (cases x)
  case None
  with assms show ?thesis by (cases y) simp_all
next
  case (Some a)
  with assms obtain b where b: "y = Some b"
    "rel_sum (\<lambda>a b. fst a = fst b) (\<lambda>a b. snd a = snd b \<and> P a b) a b"
    by (cases y) simp_all
  from b(2) have "map_sum fst snd a = map_sum fst snd b"
    by (cases a; cases b) simp_all
  with Some b(1) show ?thesis by simp
qed

lemma rel_option_fst:
  assumes "rel_option (\<lambda>a b. fst a = fst b) x y"
  shows "map_option fst x = map_option fst y"
  using assms by (cases x; cases y) simp_all

text \<open>
  C10. With the default cost function, which is 0 for every state and previous cost, the
  cost-guided \<open>popstate\<close> selects the state that the breadth-first one selects (the front
  of the frontier) and leaves the same frontier; the two searches have the same local
  variables after every number of iterations, and they end alike: with the same solution
  sequence, or both with the no-solution exception, or neither ends.
\<close>

theorem default_cost_is_breadth_first:
  fixes sp :: "('s::default, int) state_space_t"
  assumes "cost_function sp = default_cost_function"
  shows "(\<forall>ws. ws \<noteq> [] \<longrightarrow>
            map_option (\<lambda>p. (fst p, fst (snd p))) (popstate sp ws cost_guided) =
              Some (hd ws, tl ws) \<and>
            map_option (\<lambda>p. (fst p, fst (snd p))) (popstate sp ws breadth_first) =
              Some (hd ws, tl ws)) \<and>
         (\<forall>n. map_option (map_sum fst snd) (steps n goal_pred cost_guided (sp, initial_run sp)) =
              map_option (map_sum fst snd) (steps n goal_pred breadth_first (sp, initial_run sp))) \<and>
         map_option fst (check sp goal_pred cost_guided) =
           map_option fst (check sp goal_pred breadth_first)"
proof -
  let ?Q = "\<lambda>a b :: ('s, int) outcome. fst a = fst b"
  let ?R = "\<lambda>a b :: ('s, int) state_space_t \<times> 's run. snd a = snd b \<and> same_space (fst a) (fst b) \<and>
                   cost_function (fst a) = default_cost_function"
  have stp: "rel_option (rel_sum ?Q ?R) (check_step goal_pred cost_guided c1)
               (check_step goal_pred breadth_first c2)" if "?R c1 c2" for c1 c2
  proof -
    obtain sp1 r1 where c1: "c1 = (sp1, r1)" by (cases c1)
    obtain sp2 r2 where c2: "c2 = (sp2, r2)" by (cases c2)
    from that c1 c2 have "r1 = r2" "same_space sp1 sp2" "cost_function sp1 = default_cost_function"
      by simp_all
    with check_step_default_cost[of sp1 sp2 goal_pred r2] show ?thesis unfolding c1 c2 by simp
  qed
  have R0: "?R (sp, initial_run sp) (sp, initial_run sp)"
    using assms by (simp add: same_space_def)
  have a: "map_option (\<lambda>p. (fst p, fst (snd p))) (popstate sp ws cost_guided) = Some (hd ws, tl ws) \<and>
           map_option (\<lambda>p. (fst p, fst (snd p))) (popstate sp ws breadth_first) = Some (hd ws, tl ws)"
    if "ws \<noteq> []" for ws
    using popstate_default_cost[OF assms that] that by (simp add: popstate_def)
  have b: "map_option (map_sum fst snd) (steps n goal_pred cost_guided (sp, initial_run sp)) =
           map_option (map_sum fst snd) (steps n goal_pred breadth_first (sp, initial_run sp))" for n
    by (rule rel_option_fst_snd, rule steps_simulation[where R = ?R and Q = ?Q, OF R0 stp])
  have c: "map_option fst (check sp goal_pred cost_guided) =
           map_option fst (check sp goal_pred breadth_first)"
    unfolding check_def
    by (rule rel_option_fst, rule check_loop_simulation[where R = ?R and Q = ?Q, OF R0 stp])
  from a b c show ?thesis by blast
qed

theorem default_cost_is_breadth_first_witness:
  "cost_function (state_space (0::int) (successors diamond)) = default_cost_function \<and>
   map_option fst (check (state_space 0 (successors diamond)) (\<lambda>s. s = 3) cost_guided)
     = Some (Inr [0, 1, 3]) \<and>
   map_option fst (check (state_space 0 (successors diamond)) (\<lambda>s. s = 3) breadth_first)
     = Some (Inr [0, 1, 3])"
proof -
  let ?E = "state_space (0::int) (successors diamond)"
  have c: "cost_function ?E = default_cost_function"
    by (simp add: state_space_def state_space_inv_def)
  from default_cost_is_breadth_first[OF c, of "\<lambda>s. s = 3"]
  have "map_option fst (check ?E (\<lambda>s. s = 3) cost_guided) =
        map_option fst (check ?E (\<lambda>s. s = 3) breadth_first)" by blast
  with diamond_bfs c show ?thesis by simp
qed


section \<open>The initial state\<close>















section \<open>Breadth-first search finds a shortest path\<close>

lemma legal_path_snoc:
  "legal_path sp (xs @ [y]) \<longleftrightarrow>
     legal_path sp xs \<and> (xs \<noteq> [] \<longrightarrow> y \<in> set (successors_function sp (last xs)) \<and> invariant sp y)"
proof (induction sp xs rule: legal_path.induct)
  case (1 sp x z zs)
  then show ?case by auto
qed simp_all

lemma legal_path_reach:
  assumes "xs \<noteq> []" "hd xs = initial_state sp" "legal_path sp xs"
  shows "reach (initial_state sp) (successors_function sp) (invariant sp) (length xs - 1) (last xs)"
  using assms
proof (induction xs rule: rev_induct)
  case Nil
  then show ?case by simp
next
  case (snoc y xs)
  show ?case
  proof (cases "xs = []")
    case True
    with snoc.prems show ?thesis by (simp add: reach.zero)
  next
    case False
    with snoc.prems have "hd xs = initial_state sp" "legal_path sp xs"
      "y \<in> set (successors_function sp (last xs))" "invariant sp y"
      by (simp_all add: legal_path_snoc)
    with snoc.IH False
    have "reach (initial_state sp) (successors_function sp) (invariant sp) (Suc (length xs - 1)) y"
      by (intro reach.step) simp_all
    with False show ?thesis by simp
  qed
qed

lemma reach_zeroD: "reach init succ valid 0 x \<Longrightarrow> x = init"
  by (erule reach.cases) simp_all

lemma reach_SucD:
  "reach init succ valid (Suc n) y \<Longrightarrow> \<exists>x. reach init succ valid n x \<and> y \<in> set (succ x) \<and> valid y"
  by (erule reach.cases) auto

lemma path_len_trace:
  assumes "trace r' = trace r"
  shows "path_len sp r' x n = path_len sp r x n"
  using assms by (simp add: path_len_def)

lemma path_len_mono:
  assumes "path_len sp r y n" "c \<notin> dom (trace r)" "trace r' = (trace r)(c \<mapsto> x)"
  shows "path_len sp r' y n"
proof -
  from assms(1) obtain xs where
    "trace_path (initial_state sp) (successors_function sp) (invariant sp) (trace r) y xs"
    "length xs = Suc n" unfolding path_len_def by blast
  with trace_path_mono[OF this(1) assms(2), of x] show ?thesis
    unfolding path_len_def assms(3) by blast
qed

lemma path_len_extend:
  assumes "path_len sp r x n" "trace r c = Some x" "c \<noteq> initial_state sp"
    "c \<in> set (successors_function sp x)" "invariant sp c"
  shows "path_len sp r c (Suc n)"
proof -
  from assms(1) obtain xs where
    xs: "trace_path (initial_state sp) (successors_function sp) (invariant sp) (trace r) x xs"
    "length xs = Suc n" unfolding path_len_def by blast
  from xs(1) assms(2-5)
  have "trace_path (initial_state sp) (successors_function sp) (invariant sp) (trace r) c (xs @ [c])"
    by (rule trace_path.extend)
  moreover have "length (xs @ [c]) = Suc (Suc n)" using xs(2) by simp
  ultimately show ?thesis unfolding path_len_def by blast
qed

lemma bfs_layers_initial: "bfs_layers sp g 0 [initial_state sp] [] (initial_run sp)"
proof -
  have "trace_path (initial_state sp) (successors_function sp) (invariant sp)
          (trace (initial_run sp)) (initial_state sp) [initial_state sp]"
    by (rule trace_path.start)
  then have "path_len sp (initial_run sp) (initial_state sp) 0"
    unfolding path_len_def by (intro exI[of _ "[initial_state sp]"]) simp
  then show ?thesis
    unfolding bfs_layers_def by (auto simp: initial_run_def dest: reach_zeroD)
qed

lemma closed_run_initial: "closed_run sp (initial_run sp)"
  by (simp add: closed_run_def initial_run_def)

lemma bfs_layers_shift:
  assumes "bfs_layers sp g k [] B r" "closed_run sp r"
  shows "bfs_layers sp g (Suc k) B [] r"
proof -
  let ?reach = "reach (initial_state sp) (successors_function sp) (invariant sp)"
  from assms(1) have w: "waiting r = B" and pb: "\<forall>x \<in> set B. path_len sp r x (Suc k)"
    and m1: "\<forall>j x. j < k \<and> ?reach j x \<longrightarrow> x \<in> set (passed r)"
    and m2: "\<forall>x. ?reach k x \<longrightarrow> x \<in> set (passed r)"
    and m4: "\<forall>x \<in> set (passed r). \<not> g x"
    unfolding bfs_layers_def by simp_all
  have n1: "\<forall>j x. j < Suc k \<and> ?reach j x \<longrightarrow> x \<in> set (passed r)"
  proof (intro allI impI)
    fix j x assume a: "j < Suc k \<and> ?reach j x"
    then consider "j < k" | "j = k" by linarith
    then show "x \<in> set (passed r)"
    proof cases
      case 1
      with a m1 show ?thesis by blast
    next
      case 2
      with a m2 show ?thesis by blast
    qed
  qed
  have n2: "\<forall>y. ?reach (Suc k) y \<longrightarrow> y \<in> set B \<union> set (passed r)"
  proof (intro allI impI)
    fix y assume "?reach (Suc k) y"
    from reach_SucD[OF this] obtain x where
      x: "?reach k x" "y \<in> set (successors_function sp x)" "invariant sp y" by blast
    from x(1) m2 have "x \<in> set (passed r)" by blast
    with assms(2) x(2,3) have "y \<in> set (waiting r) \<union> set (passed r)"
      unfolding closed_run_def by blast
    then show "y \<in> set B \<union> set (passed r)" unfolding w .
  qed
  show ?thesis
    unfolding bfs_layers_def using w pb n1 n2 m4 by simp
qed

lemma admit_bfs_mid:
  assumes ri: "run_inv sp r" and mid: "bfs_mid sp g k x pre A B r"
    and c: "c \<in> set (successors_function sp x)"
  shows "\<exists>B'. bfs_mid sp g k x (pre @ [c]) A B' (admit sp x r c)"
proof (cases "invariant sp c \<and> c \<notin> set (waiting r) \<and> c \<notin> set (passed r)")
  case False
  then have e: "admit sp x r c = r" by (auto simp: admit_def)
  from False have "invariant sp c \<longrightarrow> c \<in> set (waiting r) \<union> set (passed r)" by blast
  with mid have "bfs_mid sp g k x (pre @ [c]) A B r" unfolding bfs_mid_def by simp
  then show ?thesis unfolding e by blast
next
  case True
  let ?r = "admit sp x r c"
  let ?reach = "reach (initial_state sp) (successors_function sp) (invariant sp)"
  have f: "waiting ?r = waiting r @ [c]" "passed ?r = passed r" "trace ?r = (trace r)(c \<mapsto> x)"
    using True by (simp_all add: admit_def)
  from ri True have cdom: "c \<notin> dom (trace r)" and cinit: "c \<noteq> initial_state sp"
    by (auto simp: run_inv_def)
  from mid have lay: "bfs_layers sp g k A B r" and px: "path_len sp r x k"
    and xp: "x \<in> set (passed r)"
    and cl: "\<forall>p \<in> set (passed r) - {x}. \<forall>y \<in> set (successors_function sp p).
        invariant sp y \<longrightarrow> y \<in> set (waiting r) \<union> set (passed r)"
    and pr: "\<forall>y \<in> set pre. invariant sp y \<longrightarrow> y \<in> set (waiting r) \<union> set (passed r)"
    unfolding bfs_mid_def by simp_all
  from lay have w: "waiting r = A @ B" and pa: "\<forall>x \<in> set A. path_len sp r x k"
    and pb: "\<forall>x \<in> set B. path_len sp r x (Suc k)"
    and m1: "\<forall>j x. j < k \<and> ?reach j x \<longrightarrow> x \<in> set (passed r)"
    and m2: "\<forall>x. ?reach k x \<longrightarrow> x \<in> set A \<union> set (passed r)"
    and m4: "\<forall>x \<in> set (passed r). \<not> g x"
    unfolding bfs_layers_def by simp_all
  have px': "path_len sp ?r x k" using px cdom f(3) by (rule path_len_mono)
  have "trace ?r c = Some x" by (simp add: f(3))
  with px' have pc: "path_len sp ?r c (Suc k)"
    using cinit c True by (intro path_len_extend) simp_all
  have pa': "\<forall>y \<in> set A. path_len sp ?r y k"
    using pa cdom f(3) by (blast intro: path_len_mono)
  have pb': "\<forall>y \<in> set (B @ [c]). path_len sp ?r y (Suc k)"
  proof
    fix y assume "y \<in> set (B @ [c])"
    then consider "y \<in> set B" | "y = c" by auto
    then show "path_len sp ?r y (Suc k)"
    proof cases
      case 1
      with pb have "path_len sp r y (Suc k)" by blast
      then show ?thesis using cdom f(3) by (rule path_len_mono)
    next
      case 2
      with pc show ?thesis by simp
    qed
  qed
  have w': "waiting ?r = A @ (B @ [c])" using f(1) w by simp
  have lay': "bfs_layers sp g k A (B @ [c]) ?r"
    unfolding bfs_layers_def f(2) using w' pa' pb' m1 m2 m4 by blast
  have cl': "\<forall>p \<in> set (passed ?r) - {x}. \<forall>y \<in> set (successors_function sp p).
        invariant sp y \<longrightarrow> y \<in> set (waiting ?r) \<union> set (passed ?r)"
    unfolding f(1,2) using cl by auto
  have pr': "\<forall>y \<in> set (pre @ [c]). invariant sp y \<longrightarrow> y \<in> set (waiting ?r) \<union> set (passed ?r)"
    unfolding f(1,2) using pr by auto
  have xp': "x \<in> set (passed ?r)" unfolding f(2) by (rule xp)
  have "bfs_mid sp g k x (pre @ [c]) A (B @ [c]) ?r"
    unfolding bfs_mid_def using lay' px' xp' cl' pr' by blast
  then show ?thesis by blast
qed

lemma foldl_admit_bfs_mid:
  assumes "run_inv sp r" "bfs_mid sp g k x pre A B r" "set cs \<subseteq> set (successors_function sp x)"
  shows "\<exists>B'. bfs_mid sp g k x (pre @ cs) A B' (foldl (admit sp x) r cs)"
  using assms
proof (induction cs arbitrary: r pre B)
  case Nil
  then show ?case by auto
next
  case (Cons c cs)
  from Cons.prems(3) have c: "c \<in> set (successors_function sp x)"
    and cs: "set cs \<subseteq> set (successors_function sp x)" by simp_all
  from admit_bfs_mid[OF Cons.prems(1,2) c] obtain B1 where
    m: "bfs_mid sp g k x (pre @ [c]) A B1 (admit sp x r c)" by blast
  from Cons.prems(2) have "x \<in> set (passed r)" unfolding bfs_mid_def by simp
  with Cons.prems(1) c have "run_inv sp (admit sp x r c)" by (intro admit_run_inv)
  from Cons.IH[OF this m cs] show ?case by simp
qed

lemma bfs_step:
  assumes ri: "run_inv sp r" and lay: "bfs_layers sp g k A B r" and cl: "closed_run sp r"
    and ne: "A \<noteq> []"
    and st: "check_step g breadth_first (sp, r) = Some (Inr (sp', r'))"
  shows "sp' = sp \<and> closed_run sp r' \<and>
         (\<exists>k' A' B'. bfs_layers sp g k' A' B' r' \<and> (A' = [] \<longrightarrow> B' = []))"
  using st
proof (cases rule: check_step_cases)
  case (expanded x w' sp1)
  let ?reach = "reach (initial_state sp) (successors_function sp) (invariant sp)"
  from ne obtain a A1 where A: "A = a # A1" by (cases A) auto
  from lay have w: "waiting r = A @ B" and pa: "\<forall>x \<in> set A. path_len sp r x k"
    and pb: "\<forall>x \<in> set B. path_len sp r x (Suc k)"
    and m1: "\<forall>j x. j < k \<and> ?reach j x \<longrightarrow> x \<in> set (passed r)"
    and m2: "\<forall>x. ?reach k x \<longrightarrow> x \<in> set A \<union> set (passed r)"
    and m4: "\<forall>x \<in> set (passed r). \<not> g x"
    unfolding bfs_layers_def by simp_all
  from expanded(2) w A have p: "x = a" "w' = A1 @ B" "sp1 = sp"
    by (simp_all add: popstate_def)
  let ?r0 = "r\<lparr>waiting := A1 @ B, passed := passed r @ [a]\<rparr>"
  have f: "waiting ?r0 = A1 @ B" "passed ?r0 = passed r @ [a]" "trace ?r0 = trace r" by simp_all
  have r': "sp' = sp" "r' = foldl (admit sp a) ?r0 (successors_function sp a)"
    using expanded(4) p by (simp_all add: expand_def)
  have ri0: "run_inv sp ?r0" using run_inv_pop[OF ri expanded(2)] p by simp
  have pl: "path_len sp ?r0 y n = path_len sp r y n" for y n
    by (rule path_len_trace) simp
  have lay0: "bfs_layers sp g k A1 B ?r0"
    unfolding bfs_layers_def f(1,2) pl using pa pb m1 m2 m4 expanded(3) p(1) A by auto
  have pxa: "path_len sp ?r0 a k" unfolding pl using pa A by simp
  have cl0: "\<forall>p \<in> set (passed ?r0) - {a}. \<forall>y \<in> set (successors_function sp p).
        invariant sp y \<longrightarrow> y \<in> set (waiting ?r0) \<union> set (passed ?r0)"
  proof (intro ballI impI)
    fix q y assume q: "q \<in> set (passed ?r0) - {a}" and y: "y \<in> set (successors_function sp q)"
      and v: "invariant sp y"
    from q have "q \<in> set (passed r)" by auto
    with cl y v have "y \<in> set (waiting r) \<union> set (passed r)" unfolding closed_run_def by blast
    then show "y \<in> set (waiting ?r0) \<union> set (passed ?r0)" unfolding f(1,2) w A by auto
  qed
  have mid0: "bfs_mid sp g k a [] A1 B ?r0"
    unfolding bfs_mid_def using lay0 pxa cl0 by simp
  from foldl_admit_bfs_mid[OF ri0 mid0, of "successors_function sp a"] obtain B' where
    mid: "bfs_mid sp g k a (successors_function sp a) A1 B' r'" unfolding r'(2) by auto
  then have lay': "bfs_layers sp g k A1 B' r'"
    and cla: "\<forall>p \<in> set (passed r') - {a}. \<forall>y \<in> set (successors_function sp p).
        invariant sp y \<longrightarrow> y \<in> set (waiting r') \<union> set (passed r')"
    and clb: "\<forall>y \<in> set (successors_function sp a). invariant sp y \<longrightarrow>
        y \<in> set (waiting r') \<union> set (passed r')"
    unfolding bfs_mid_def by simp_all
  have cl': "closed_run sp r'"
    unfolding closed_run_def
  proof (intro ballI impI)
    fix q y assume q: "q \<in> set (passed r')" and y: "y \<in> set (successors_function sp q)"
      and v: "invariant sp y"
    show "y \<in> set (waiting r') \<union> set (passed r')"
    proof (cases "q = a")
      case True
      with clb y v show ?thesis by blast
    next
      case False
      with q have "q \<in> set (passed r') - {a}" by simp
      with cla y v show ?thesis by blast
    qed
  qed
  have "\<exists>k' A' B'. bfs_layers sp g k' A' B' r' \<and> (A' = [] \<longrightarrow> B' = [])"
  proof (cases "A1 = []")
    case True
    with lay' have "bfs_layers sp g k [] B' r'" by simp
    from bfs_layers_shift[OF this cl'] have "bfs_layers sp g (Suc k) B' [] r'" .
    then show ?thesis by blast
  next
    case False
    with lay' show ?thesis by blast
  qed
  with r'(1) cl' show ?thesis by blast
qed simp_all

lemma steps_bfs_inv:
  assumes "steps n g breadth_first (sp, initial_run sp) = Some (Inr (sp', r'))"
  shows "sp' = sp \<and> run_inv sp r' \<and> closed_run sp r' \<and>
         (\<exists>k A B. bfs_layers sp g k A B r' \<and> (A = [] \<longrightarrow> B = []))"
proof -
  let ?I = "\<lambda>c. fst c = sp \<and> run_inv sp (snd c) \<and> closed_run sp (snd c) \<and>
         (\<exists>k A B. bfs_layers sp g k A B (snd c) \<and> (A = [] \<longrightarrow> B = []))"
  have "?I (sp', r')"
  proof (rule steps_invariant[OF assms])
    have "bfs_layers sp g 0 [initial_state sp] [] (initial_run sp)" by (rule bfs_layers_initial)
    then have "\<exists>k A B. bfs_layers sp g k A B (initial_run sp) \<and> (A = [] \<longrightarrow> B = [])" by blast
    then show "?I (sp, initial_run sp)"
      by (simp add: run_inv_initial closed_run_initial)
  next
    fix c c' :: "('a, 'b) state_space_t \<times> 'a run"
    assume a: "?I c" and b: "check_step g breadth_first c = Some (Inr c')"
    obtain r1 where c: "c = (sp, r1)" using a by (cases c) simp
    obtain sp2 r2 where c': "c' = (sp2, r2)" by (cases c')
    from a c have ri: "run_inv sp r1" and cl: "closed_run sp r1" by simp_all
    from a c obtain k A B where lay: "bfs_layers sp g k A B r1" and n: "A = [] \<longrightarrow> B = []"
      by auto
    from b c c' have st: "check_step g breadth_first (sp, r1) = Some (Inr (sp2, r2))" by simp
    then have "waiting r1 \<noteq> []" by (auto simp: check_step_def split: if_splits)
    with lay n have ne: "A \<noteq> []" unfolding bfs_layers_def by auto
    from bfs_step[OF ri lay cl ne st] check_step_run_inv[OF ri st]
    show "?I c'" unfolding c' by simp
  qed
  then show ?thesis by simp
qed

text \<open>
  C2. A solution sequence returned by the breadth-first search is a legal path from the
  initial state to a goal state, and no legal path from the initial state to a goal state
  (each step a successor accepted by the invariant, every step counting one) has fewer
  states, that is, fewer transitions.
\<close>

theorem breadth_first_shortest:
  fixes sp :: "('s::default, 'c::linorder) state_space_t"
  assumes "check sp goal_pred breadth_first = Some (Inr solution, sp')"
    and "path \<noteq> []" and "hd path = initial_state sp" and "goal_pred (last path)"
    and "legal_path sp path"
  shows "length solution - 1 \<le> length path - 1 \<and> length solution \<le> length path \<and>
         solution \<noteq> [] \<and> hd solution = initial_state sp \<and> goal_pred (last solution)"
proof -
  let ?reach = "reach (initial_state sp) (successors_function sp) (invariant sp)"
  from assms(1) obtain n where
    "steps n goal_pred breadth_first (sp, initial_run sp) = Some (Inl (Inr solution, sp'))"
    unfolding check_def using check_loop_steps by blast
  from steps_Inl_last[OF this] obtain m c1 where
    m: "steps m goal_pred breadth_first (sp, initial_run sp) = Some (Inr c1)"
      "check_step goal_pred breadth_first c1 = Some (Inl (Inr solution, sp'))" by blast
  obtain sp1 r1 where c1: "c1 = (sp1, r1)" by (cases c1)
  from steps_bfs_inv[OF m(1)[unfolded c1]] obtain k A B where
    sp1: "sp1 = sp" and ri: "run_inv sp r1" and lay: "bfs_layers sp goal_pred k A B r1"
    and n: "A = [] \<longrightarrow> B = []" by blast
  from lay have w: "waiting r1 = A @ B" and pa: "\<forall>x \<in> set A. path_len sp r1 x k"
    and m1: "\<forall>j x. j < k \<and> ?reach j x \<longrightarrow> x \<in> set (passed r1)"
    and m4: "\<forall>x \<in> set (passed r1). \<not> goal_pred x"
    unfolding bfs_layers_def by simp_all
  from m(2)[unfolded c1 sp1] have len: "length solution = Suc k"
  proof (cases rule: check_step_cases)
    case (found x w' sp2 sol)
    from found(1) w n obtain a A1 where A: "A = a # A1" by (cases A) auto
    from found(2) w A have x: "x = a" "sp2 = sp" by (simp_all add: popstate_def)
    from pa A obtain xs where
      xs: "trace_path (initial_state sp) (successors_function sp) (invariant sp) (trace r1) a xs"
      "length xs = Suc k" unfolding path_len_def by auto
    from backtrack_trace_path[OF xs(1), of "[]"] found(4) x
    have "sol = xs" by (simp add: get_solution_from_trace_def)
    with found(5) xs(2) show ?thesis by simp
  qed simp_all
  from legal_path_reach[OF assms(2,3,5)] have r: "?reach (length path - 1) (last path)" .
  have "k \<le> length path - 1"
  proof (rule ccontr)
    assume "\<not> k \<le> length path - 1"
    then have "length path - 1 < k" by simp
    with r m1 have "last path \<in> set (passed r1)" by blast
    with m4 assms(4) show False by blast
  qed
  moreover from assms(2) have "0 < length path" by simp
  ultimately have "length solution - 1 \<le> length path - 1" "length solution \<le> length path"
    using len by linarith+
  with check_solution_general[OF assms(1)] show ?thesis by blast
qed

theorem breadth_first_shortest_witness:
  "map_option fst (check (state_space 0 (successors diamond)) (\<lambda>s. s = 3) breadth_first)
     = Some (Inr [0, 1, 3]) \<and>
   [0, 2, 3 :: int] \<noteq> [] \<and>
   hd [0, 2, 3 :: int] = initial_state (state_space 0 (successors diamond)) \<and>
   last [0, 2, 3 :: int] = 3 \<and>
   legal_path (state_space 0 (successors diamond)) [0, 2, 3] \<and>
   length [0, 1, 3 :: int] \<le> length [0, 2, 3 :: int]"
proof -
  let ?E = "state_space (0::int) (successors diamond)"
  from diamond_bfs obtain sp' where
    c: "check ?E (\<lambda>s. s = 3) breadth_first = Some (Inr [0, 1, 3], sp')" by auto
  have 1: "[0, 2, 3 :: int] \<noteq> []" by simp
  have 2: "hd [0, 2, 3 :: int] = initial_state ?E"
    by (simp add: state_space_def state_space_inv_def)
  have 3: "(\<lambda>s::int. s = 3) (last [0, 2, 3])" by simp
  have 4: "legal_path ?E [0, 2, 3]"
    by (simp add: state_space_def state_space_inv_def default_invariant_def successors_def
        diamond_def)
  from breadth_first_shortest[OF c 1 2 3 4]
  have "length [0, 1, 3 :: int] \<le> length [0, 2, 3 :: int]" by blast
  with diamond_bfs 1 2 3 4 show ?thesis by simp
qed

end
